theory Spec2Isabelle
  imports Complex_Main "HOL-Library.Word"
begin

unbundle bit_operations_syntax

section \<open>Machine types of the firmware\<close>

type_synonym u8 = "8 word"
type_synonym u32 = "32 word"

section \<open>Link framer: sender (6x6\_test\_pico.ino) and receiver (readPicoPacket)\<close>

text \<open>
  \<^verbatim>\<open>sendEvent(type, key)\<close> of the Pico sketch writes four bytes to \<^verbatim>\<open>Serial1\<close>:
  \<^verbatim>\<open>b0 = 0xA5, b1 = type, b2 = key, b3 = b0 ^ b1 ^ b2\<close>. The model returns the bytes
  written, in order.
\<close>

definition sendEvent :: "u8 \<Rightarrow> u8 \<Rightarrow> u8 list" where
  "sendEvent type key =
     (let b0 = 0xA5; b1 = type; b2 = key; b3 = b0 XOR b1 XOR b2
      in [b0, b1, b2, b3])"

text \<open>
  The three \<^verbatim>\<open>static\<close> locals of \<^verbatim>\<open>readPicoPacket\<close> survive between calls, so they are
  a record that is passed in and returned.
\<close>

record decoder =
  state :: u8
  b1 :: u8
  b2 :: u8

definition decoder_init :: decoder where
  "decoder_init = \<lparr>state = 0, b1 = 0, b2 = 0\<rparr>"

text \<open>
  \<^verbatim>\<open>readPicoPacket(type, key)\<close>: the \<^verbatim>\<open>while (Serial.available())\<close> loop, as recursion on
  the bytes waiting in the receive buffer. The result is the decoded \<open>(type, key)\<close> when
  the function returns \<^verbatim>\<open>true\<close> (\<open>None\<close> when it returns \<^verbatim>\<open>false\<close>), the statics, and
  the bytes left unread in the buffer. A \<^verbatim>\<open>state\<close> outside 0..3 matches no \<^verbatim>\<open>case\<close>: the
  byte is consumed and nothing changes.
\<close>

fun readPicoPacket :: "decoder \<Rightarrow> u8 list \<Rightarrow> (u8 \<times> u8) option \<times> decoder \<times> u8 list" where
  "readPicoPacket d [] = (None, d, [])"
| "readPicoPacket d (b # rest) =
     (if state d = 0 then
        (if b = 0xA5 then readPicoPacket (d\<lparr>state := 1\<rparr>) rest
         else readPicoPacket d rest)
      else if state d = 1 then readPicoPacket (d\<lparr>b1 := b, state := 2\<rparr>) rest
      else if state d = 2 then readPicoPacket (d\<lparr>b2 := b, state := 3\<rparr>) rest
      else if state d = 3 then
        (let chk = 0xA5 XOR b1 d XOR b2 d;
             d' = d\<lparr>state := 0\<rparr>
         in if b = chk then (Some (b1 d, b2 d), d', rest)
            else readPicoPacket d' rest)
      else readPicoPacket d rest)"

section \<open>Reliable relay client (gateway firmware v0.0.3: postEventToPlugin)\<close>

datatype ReliabilityMode = MODE_LEGACY | MODE_CONFIRMED

text \<open>
  The JSON object that \<^verbatim>\<open>postEventToPlugin\<close> concatenates, kept as the fields it is
  rendered from (\<open>m_event\<close> is the member \<^verbatim>\<open>"event"\<close>, and so on). \<^verbatim>\<open>"rssi"\<close> is present
  only when Wi-Fi is connected.
\<close>

record relay_message =
  m_event :: u8
  m_seq :: u32
  m_deviceId :: string
  m_key :: u8
  m_press :: string
  m_heldMs :: u32
  m_uptimeMs :: u32
  m_rssi :: "int option"

text \<open>
  What one delivery attempt meets on the network: \<^verbatim>\<open>http.begin\<close> returns false, or
  \<^verbatim>\<open>http.POST\<close> returns a code (negative for the client's transport errors such as
  connection refused or read timeout) and \<^verbatim>\<open>http.getString()\<close> a body.
\<close>

datatype attempt_result = BeginFailed | Responded int string

text \<open>Everything the firmware reads from outside during one pass of \<^verbatim>\<open>loop()\<close>.\<close>

record env =
  wifiConnected :: bool
  wifiRSSI :: int
  net :: "nat \<Rightarrow> attempt_result"
  millisExpire :: u32
  millisNow :: u32
  millisPost :: u32
  millisStatus :: u32

text \<open>What the firmware does to the outside, in order.\<close>

datatype effect =
    Blink nat nat nat
  | BlinkPressTick
  | Redraw
  | HttpSetTimeout nat
  | HttpPost relay_message
  | HttpEnd
  | Delay u32
  | Yield

record gateway =
  dec :: decoder
  pressStart :: "u8 \<Rightarrow> u32"
  isDown :: "u8 \<Rightarrow> bool"
  picoSeen :: bool
  seqCounter :: u32
  lastSeqSent :: u32
  lastAckSeq :: u32
  lastPostOk :: bool
  reliabilityMode :: ReliabilityMode
  deviceIdent :: string
  lastKeyText :: "(u8 \<times> bool) option"
  transientStatus :: string
  transientUntilMs :: u32
  trace :: "effect list"

text \<open>
  The arrays \<^verbatim>\<open>pressStart[KEY_COUNT]\<close> and \<^verbatim>\<open>isDown[KEY_COUNT]\<close> are functions of the key;
  \<^verbatim>\<open>loop()\<close> returns before touching them when \<^verbatim>\<open>key >= KEY_COUNT\<close>. \<open>lastKeyText\<close> is
  the pair \<open>(key, isLong)\<close> that \<^verbatim>\<open>"K:" + String(key) + (isLong ? "L" : "S")\<close> renders
  (\<open>None\<close> for the initial \<^verbatim>\<open>"K:--"\<close>). \<open>deviceIdent\<close> is the global \<^verbatim>\<open>deviceId\<close>.
\<close>

definition KEY_COUNT :: u8 where
  "KEY_COUNT = 36"

definition LONG_PRESS_MS :: u32 where
  "LONG_PRESS_MS = 600"

definition gateway_init :: gateway where
  "gateway_init =
     \<lparr>dec = decoder_init, pressStart = (\<lambda>_. 0), isDown = (\<lambda>_. False), picoSeen = False,
      seqCounter = 0, lastSeqSent = 0, lastAckSeq = 0, lastPostOk = False,
      reliabilityMode = MODE_LEGACY, deviceIdent = ''lumicon-0'', lastKeyText = None,
      transientStatus = [], transientUntilMs = 0, trace = []\<rparr>"

definition emit :: "effect \<Rightarrow> gateway \<Rightarrow> gateway" where
  "emit x g = g\<lparr>trace := trace g @ [x]\<rparr>"

subsection \<open>parseAckSeq\<close>

text \<open>\<^verbatim>\<open>String::indexOf(const String&)\<close>: index of the first occurrence, counted from \<open>i\<close>.\<close>

fun indexOfStr :: "string \<Rightarrow> string \<Rightarrow> nat \<Rightarrow> nat option" where
  "indexOfStr pat [] i = None"
| "indexOfStr pat (c # cs) i =
     (if take (length pat) (c # cs) = pat then Some i else indexOfStr pat cs (Suc i))"

text \<open>\<^verbatim>\<open>String::indexOf(char, fromIndex)\<close>: \<open>None\<close> is the \<^verbatim>\<open>-1\<close> of the source.\<close>

fun indexOfChr :: "char \<Rightarrow> string \<Rightarrow> nat \<Rightarrow> nat option" where
  "indexOfChr ch [] i = None"
| "indexOfChr ch (c # cs) i = (if c = ch then Some i else indexOfChr ch cs (Suc i))"

definition indexOfChrFrom :: "string \<Rightarrow> char \<Rightarrow> nat \<Rightarrow> nat option" where
  "indexOfChrFrom body ch fromIndex =
     (if fromIndex \<ge> length body then None else indexOfChr ch (drop fromIndex body) fromIndex)"

definition isDigit :: "char \<Rightarrow> bool" where
  "isDigit c = (48 \<le> (of_char c :: nat) \<and> (of_char c :: nat) \<le> 57)"

definition digitVal :: "char \<Rightarrow> nat" where
  "digitVal c = of_char c - 48"

text \<open>
  \<^verbatim>\<open>String::toInt()\<close> on a non-empty string of decimal digits is \<^verbatim>\<open>atol\<close>, which on the
  ESP8266 toolchain is \<^verbatim>\<open>strtol(s, NULL, 10)\<close>: the decimal value, saturated at
  \<^verbatim>\<open>LONG_MAX\<close> \<open>= 2^31 - 1\<close>.
\<close>

definition toInt :: "string \<Rightarrow> int" where
  "toInt num = min (int (foldl (\<lambda>a c. 10 * a + digitVal c) 0 num)) (2 ^ 31 - 1)"

definition seqKey :: string where
  "seqKey = [CHR 0x22, CHR ''s'', CHR ''e'', CHR ''q'', CHR 0x22]"

text \<open>
  \<^verbatim>\<open>bool parseAckSeq(const String& body, uint32_t &outSeq)\<close>: \<open>Some outSeq\<close> when it
  returns true. The two \<^verbatim>\<open>while\<close> loops skip blanks and tabs and then collect digits.
\<close>

definition parseAckSeq :: "string \<Rightarrow> u32 option" where
  "parseAckSeq body =
     (case indexOfStr seqKey body 0 of
        None \<Rightarrow> None
      | Some i \<Rightarrow>
          (case indexOfChrFrom body (CHR '':'') i of
             None \<Rightarrow> None
           | Some colon \<Rightarrow>
               (let rest = dropWhile (\<lambda>c. c = CHR '' '' \<or> c = CHR 0x09) (drop (colon + 1) body);
                    num = takeWhile isDigit rest
                in if num = [] then None else Some (word_of_int (toInt num)))))"

subsection \<open>postEventToPlugin\<close>

text \<open>
  The \<^verbatim>\<open>for (uint8_t attempt = 1; attempt <= 3; attempt++)\<close> loop. Every way out of the
  body that is not \<^verbatim>\<open>return true\<close> runs \<^verbatim>\<open>delay(backoff); backoff *= 2\<close> first.
\<close>

function attempts ::
  "env \<Rightarrow> relay_message \<Rightarrow> u32 \<Rightarrow> nat \<Rightarrow> u32 \<Rightarrow> gateway \<Rightarrow> bool \<times> gateway" where
  "attempts e body sq attempt backoff g =
     (if attempt \<le> 3 then
        (let g1 = emit (HttpSetTimeout 1200) g in
         case net e attempt of
           BeginFailed \<Rightarrow>
             attempts e body sq (attempt + 1) (backoff * 2) (emit (Delay backoff) (emit HttpEnd g1))
         | Responded code resp \<Rightarrow>
             (let g2 = emit HttpEnd (emit (HttpPost body) g1) in
              if 200 \<le> code \<and> code < 300 then
                (if reliabilityMode g2 = MODE_LEGACY then (True, g2\<lparr>lastAckSeq := sq\<rparr>)
                 else
                   (case parseAckSeq resp of
                      Some ack \<Rightarrow>
                        if ack = sq then (True, g2\<lparr>lastAckSeq := ack\<rparr>)
                        else attempts e body sq (attempt + 1) (backoff * 2) (emit (Delay backoff) g2)
                    | None \<Rightarrow>
                        attempts e body sq (attempt + 1) (backoff * 2) (emit (Delay backoff) g2)))
              else
                attempts e body sq (attempt + 1) (backoff * 2)
                  (emit Yield (emit (Delay backoff) g2))))
      else (False, g))"
  by pat_completeness auto
termination
  by (relation "measure (\<lambda>(e, body, sq, attempt, backoff, g). 4 - attempt)") auto

declare attempts.simps [simp del]

definition postEventToPlugin ::
  "env \<Rightarrow> u8 \<Rightarrow> u8 \<Rightarrow> string \<Rightarrow> u32 \<Rightarrow> u32 \<Rightarrow> gateway \<Rightarrow> bool \<times> gateway" where
  "postEventToPlugin e eventNumber keyIndex pressKind held sq g =
     (if \<not> wifiConnected e then (False, g)
      else
        (let body = \<lparr>m_event = eventNumber, m_seq = sq, m_deviceId = deviceIdent g,
                     m_key = keyIndex, m_press = pressKind, m_heldMs = held,
                     m_uptimeMs = millisPost e, m_rssi = Some (wifiRSSI e)\<rparr>
         in attempts e body sq 1 200 g))"

section \<open>Press classifier (gateway firmware v0.0.3: loop)\<close>

definition setTransientStatus :: "env \<Rightarrow> string \<Rightarrow> u32 \<Rightarrow> gateway \<Rightarrow> gateway" where
  "setTransientStatus e msg ttlMs g =
     g\<lparr>transientStatus := msg, transientUntilMs := millisStatus e + ttlMs\<rparr>"

definition updateTransientStatus :: "env \<Rightarrow> gateway \<Rightarrow> gateway" where
  "updateTransientStatus e g =
     (if transientStatus g = [] then g
      else if 0 \<le> sint (millisExpire e - transientUntilMs g)
           then emit Redraw (g\<lparr>transientStatus := []\<rparr>)
           else g)"

text \<open>The block of \<^verbatim>\<open>loop()\<close> under \<^verbatim>\<open>if (isDown[key])\<close> on a release frame.\<close>

definition release :: "env \<Rightarrow> u8 \<Rightarrow> u32 \<Rightarrow> gateway \<Rightarrow> gateway" where
  "release e k now g =
     (let g1 = g\<lparr>isDown := (isDown g)(k := False)\<rparr>;
          held = now - pressStart g1 k;
          isLong = (held \<ge> LONG_PRESS_MS);
          eventOut = (if isLong then k + 36 else k);
          pressKind = (if isLong then ''long'' else ''short'');
          g2 = emit Redraw (g1\<lparr>lastKeyText := Some (k, isLong)\<rparr>);
          g3 = g2\<lparr>seqCounter := seqCounter g2 + 1\<rparr>;
          sq = seqCounter g3;
          g4 = g3\<lparr>lastSeqSent := sq\<rparr>;
          (ok, g5) = postEventToPlugin e eventOut k pressKind held sq g4;
          g6 = g5\<lparr>lastPostOk := ok\<rparr>;
          g7 = (if ok then setTransientStatus e ''ACK OK'' 2000 (emit (Blink 1 30 60) g6)
                else setTransientStatus e ''ACK FAIL'' 3000 (emit (Blink 2 30 60) g6))
      in emit Redraw g7)"

text \<open>
  One pass of \<^verbatim>\<open>loop()\<close> over the bytes \<open>rx\<close> waiting in the UART buffer; the bytes left
  unread are returned. The pass is one during which no HTTP request is pending on the
  gateway's own web server, so that \<^verbatim>\<open>server.handleClient()\<close> does nothing. (Of the
  handlers it could run, \<^verbatim>\<open>/clear\<close> and \<^verbatim>\<open>/ui\<close> call \<^verbatim>\<open>clearAll()\<close>, which resets
  \<open>lastKeyText\<close> and \<open>transientStatus\<close>; none of them writes \<open>isDown\<close>, \<open>pressStart\<close>,
  \<open>seqCounter\<close>, \<open>lastSeqSent\<close>, \<open>lastAckSeq\<close> or \<open>lastPostOk\<close>.)
\<close>

definition loop :: "env \<Rightarrow> u8 list \<Rightarrow> gateway \<Rightarrow> gateway \<times> u8 list" where
  "loop e rx g0 =
     (let g1 = updateTransientStatus e g0 in
      case readPicoPacket (dec g1) rx of
        (None, d, rx') \<Rightarrow> (emit Yield (g1\<lparr>dec := d\<rparr>), rx')
      | (Some (type, k), d, rx') \<Rightarrow>
          (let g2 = g1\<lparr>dec := d\<rparr>;
               g3 = (if \<not> picoSeen g2 then emit (Blink 1 40 80) (g2\<lparr>picoSeen := True\<rparr>) else g2);
               g4 = (if type = 1 then emit BlinkPressTick g3 else g3)
           in if k \<ge> KEY_COUNT then (g4, rx')
              else
                (let now = millisNow e in
                 if type = 1 then
                   (if \<not> isDown g4 k
                    then (emit Yield (g4\<lparr>isDown := (isDown g4)(k := True),
                                          pressStart := (pressStart g4)(k := now)\<rparr>), rx')
                    else (emit Yield g4, rx'))
                 else
                   (if isDown g4 k then (emit Yield (release e k now g4), rx')
                    else (emit Yield g4, rx')))))"

section \<open>Reading a trace\<close>

text \<open>
  The backoff delays, the per-attempt timeouts and the posted messages of a trace, in
  order. Each delivery attempt starts with exactly one \<^verbatim>\<open>http.setTimeout\<close>, so the number
  of timeouts in a trace is the number of attempts made.
\<close>

fun delays :: "effect list \<Rightarrow> u32 list" where
  "delays [] = []"
| "delays (Delay d # es) = d # delays es"
| "delays (_ # es) = delays es"

fun timeouts :: "effect list \<Rightarrow> nat list" where
  "timeouts [] = []"
| "timeouts (HttpSetTimeout t # es) = t # timeouts es"
| "timeouts (_ # es) = timeouts es"

fun posts :: "effect list \<Rightarrow> relay_message list" where
  "posts [] = []"
| "posts (HttpPost m # es) = m # posts es"
| "posts (_ # es) = posts es"

text \<open>
  The success rule of the relay client in the words of the specification: Legacy accepts
  any 2xx response; Confirmed also needs the body to parse to the sequence number sent.
\<close>

definition attempt_succeeds :: "ReliabilityMode \<Rightarrow> u32 \<Rightarrow> attempt_result \<Rightarrow> bool" where
  "attempt_succeeds mode sq r =
     (case r of
        BeginFailed \<Rightarrow> False
      | Responded code resp \<Rightarrow>
          200 \<le> code \<and> code < 300 \<and> (mode = MODE_LEGACY \<or> parseAckSeq resp = Some sq))"

text \<open>The verdicts of that rule on the attempts \<open>a, a + 1, \<dots>, 3\<close>.\<close>

definition outcomes :: "env \<Rightarrow> ReliabilityMode \<Rightarrow> u32 \<Rightarrow> nat \<Rightarrow> bool list" where
  "outcomes e mode sq a = map (\<lambda>i. attempt_succeeds mode sq (net e i)) [a..<4]"

text \<open>The number of attempts that fail before the first success (all of them if none succeeds).\<close>

definition failures :: "bool list \<Rightarrow> nat" where
  "failures oks = length (takeWhile Not oks)"

definition backoffs :: "u32 \<Rightarrow> nat \<Rightarrow> u32 list" where
  "backoffs b n = map (\<lambda>i. b * 2 ^ i) [0..<n]"

section \<open>Concrete runs of the gateway\<close>

text \<open>Key 5 went down at \<open>millis() = 1000\<close>; nothing else has happened since boot.\<close>

definition key5_down :: gateway where
  "key5_down = gateway_init\<lparr>pressStart := (\<lambda>_. 0)(5 := 1000), isDown := (\<lambda>_. False)(5 := True)\<rparr>"

text \<open>A network on which \<^verbatim>\<open>http.begin\<close> fails every time; the release is read at \<open>now\<close>.\<close>

definition unreachable_host :: "u32 \<Rightarrow> env" where
  "unreachable_host now =
     \<lparr>wifiConnected = True, wifiRSSI = - 60, net = (\<lambda>_. BeginFailed),
      millisExpire = now, millisNow = now, millisPost = now, millisStatus = now\<rparr>"




section \<open>The acknowledgement as text\<close>








section \<open>Host listener (plugin v5.1: \_handleRequest, \_tickStatusTimer)\<close>

text \<open>
  JavaScript strings are modelled as \<open>string\<close> with one \<open>char\<close> per code unit below 256
  (HTTP header values reach the handler in exactly that form). \<^verbatim>\<open>String.prototype.trim\<close>
  removes white space and line terminators from both ends; below 256 these are tab,
  line feed, vertical tab, form feed, carriage return, space and no-break space.
\<close>

definition isJsSpace :: "char \<Rightarrow> bool" where
  "isJsSpace c = ((of_char c :: nat) \<in> {9, 10, 11, 12, 13, 32, 160})"

definition trim :: "string \<Rightarrow> string" where
  "trim s = rev (dropWhile isJsSpace (rev (dropWhile isJsSpace s)))"

text \<open>
  A member of the request body after \<^verbatim>\<open>Number(...)\<close>: an integer (what \<^verbatim>\<open>Number.isInteger\<close>
  accepts), or anything else (\<^verbatim>\<open>NaN\<close> for a missing or malformed member, a fraction, an
  infinity).
\<close>

datatype js_number = Whole int | NotWhole

text \<open>
  The parsed body, member by member, as the handler reads it: \<open>b_event\<close>, \<open>b_seq\<close> and
  \<open>b_heldMs\<close> are \<^verbatim>\<open>Number(body?.event)\<close>, \<^verbatim>\<open>Number(body?.seq)\<close> and
  \<^verbatim>\<open>Number(body?.heldMs)\<close>; \<open>b_deviceId\<close> is the member \<^verbatim>\<open>deviceId\<close> when it is a string;
  \<open>b_rssi\<close> is \<^verbatim>\<open>Number(body?.rssi)\<close> when that is finite (an integer in this model). A body
  that is empty or not JSON is read as \<^verbatim>\<open>{}\<close>: every member is missing.
\<close>

record json_body =
  b_event :: js_number
  b_seq :: js_number
  b_deviceId :: "string option"
  b_heldMs :: js_number
  b_rssi :: "int option"

definition empty_body :: json_body where
  "empty_body = \<lparr>b_event = NotWhole, b_seq = NotWhole, b_deviceId = None,
                   b_heldMs = NotWhole, b_rssi = None\<rparr>"

text \<open>
  A request: \<open>secretHeader\<close> is \<^verbatim>\<open>req.headers["x-matrix-secret"]\<close>, \<open>remoteAddress\<close> is
  \<^verbatim>\<open>req.socket?.remoteAddress\<close>, and \<open>jsonBody\<close> is what \<^verbatim>\<open>_readJsonBody\<close> resolves to (\<open>None\<close>
  when it rejects: body over 16 KiB, or a stream error).
\<close>

record request =
  "method" :: string
  url :: string
  secretHeader :: "string option"
  remoteAddress :: "string option"
  jsonBody :: "json_body option"

text \<open>
  The setting \<^verbatim>\<open>offlineTimeoutSec\<close> after \<^verbatim>\<open>Number(...)\<close>: absent, not finite, or a whole
  number of seconds (below \<open>2^53 / 1000\<close>, so that the product with 1000 is exact in the
  code's double arithmetic). A setting with a fraction is not modelled.
\<close>

datatype timeout_setting = Unset | NotFinite | Seconds int

record settings =
  secret :: "string option"
  offlineTimeoutSec :: timeout_setting
  debugToasts :: bool
  toastVerbosity :: string

text \<open>
  \<open>CONNECTED r a\<close> is the text \<^verbatim>\<open>CONNECTED | RSSI r | as ago\<close>, with \<^verbatim>\<open>RSSI ?\<close> for
  \<open>r = None\<close>; \<open>NoText\<close> is the empty string the cache starts with.
\<close>

datatype status_text = NoText | OFFLINE | CONNECTED "int option" int

text \<open>
  Values handed to the Lumia API. \<open>VIso t\<close> is the ISO rendering of the instant \<open>t\<close>
  (\<^verbatim>\<open>new Date().toISOString()\<close>).
\<close>

datatype js_value = VBool bool | VNum int | VStr string | VIso int | VStatus status_text

record alert =
  alert :: string
  dynamic_value :: int
  x_event :: int
  x_kind :: string
  x_received_at :: int
  x_device_id :: string
  x_device_ip :: string
  x_device_last_seen :: int
  x_device_rssi :: int
  x_device_connected :: bool
  x_seq :: int
  x_held_ms :: int
  x_key_label :: string

text \<open>
  The toast texts: \<^verbatim>\<open>Lumi-Con connected\<close>, \<^verbatim>\<open>Lumi-Con offline\<close>, and
  \<^verbatim>\<open>Input: <label> (<kind>)\<close> where the label is the key's label or \<^verbatim>\<open>Key <n>\<close>.
\<close>

datatype toast_text = LumiConConnected | LumiConOffline | InputToast string int string

text \<open>
  The calls the plugin makes on the Lumia API. The API is outside the repository: which
  calls throw is a parameter \<open>throws\<close> of the handlers below. The calls that return are
  recorded, in order, in the field \<open>calls\<close> of the plugin's state.
\<close>

datatype lumia_call =
    SetVariable string js_value
  | ShowToast toast_text int
  | TriggerAlert alert
  | LogError

record host =
  lastSeqByDevice :: "string \<rightharpoonup> int"
  deviceConnected :: bool
  deviceId :: string
  deviceIp :: string
  lastRssi :: int
  lastSeenMs :: int
  lastStatusText :: status_text
  labelsShort :: "string list"
  labelsLong :: "string list"
  labelsFallback :: "string list"
  lastToastMs :: int
  lastVerboseToastMs :: int
  calls :: "lumia_call list"

text \<open>The state the constructor builds.\<close>

definition host_init :: host where
  "host_init =
     \<lparr>lastSeqByDevice = Map.empty, deviceConnected = False, deviceId = [], deviceIp = [],
      lastRssi = 0, lastSeenMs = 0, lastStatusText = NoText,
      labelsShort = replicate 36 [], labelsLong = replicate 36 [],
      labelsFallback = replicate 36 [],
      lastToastMs = 0, lastVerboseToastMs = 0, calls = []\<rparr>"

datatype payload =
    Health
  | NotFound
  | Unauthorized
  | InvalidEventNumber "int option"
  | Ack "int option"
  | ServerError

text \<open>
  A response is a status and a payload: \<open>Ack s\<close> is \<^verbatim>\<open>{ok: true, seq: s}\<close> (without \<^verbatim>\<open>seq\<close>
  for \<open>None\<close>), \<open>InvalidEventNumber s\<close> is
  \<^verbatim>\<open>{ok: false, error: "Invalid event number", seq: s}\<close>.
\<close>

type_synonym response = "nat \<times> payload"

definition EVENT_MIN :: int where
  "EVENT_MIN = 0"

definition EVENT_MAX :: int where
  "EVENT_MAX = 71"

definition HOST_KEY_COUNT :: int where
  "HOST_KEY_COUNT = 36"

subsection \<open>Settings helpers\<close>

definition getSecret :: "settings \<Rightarrow> string" where
  "getSecret S = trim (case secret S of None \<Rightarrow> [] | Some s \<Rightarrow> s)"

definition getOfflineTimeoutMs :: "settings \<Rightarrow> int" where
  "getOfflineTimeoutMs S =
     (let safeSec = (case offlineTimeoutSec S of
                       Unset \<Rightarrow> 30
                     | NotFinite \<Rightarrow> 30
                     | Seconds sec \<Rightarrow> if sec \<ge> 5 then sec else 30)
      in safeSec * 1000)"

definition toastVerbosityOf :: "settings \<Rightarrow> string" where
  "toastVerbosityOf S = (if toastVerbosity S = ''verbose'' then ''verbose'' else ''important'')"

definition getKeyLabel :: "host \<Rightarrow> string \<Rightarrow> int \<Rightarrow> string" where
  "getKeyLabel h kind idx =
     (if idx < 0 \<or> idx \<ge> 36 then []
      else
        (let list = (if kind = ''long'' then labelsLong h else labelsShort h);
             entry = (\<lambda>xs. if nat idx < length xs then xs ! nat idx else []);
             picked = trim (entry list)
         in if picked \<noteq> [] then picked else trim (entry (labelsFallback h))))"

subsection \<open>Awaited statements\<close>

text \<open>
  An awaited statement takes the state and returns the new state with a flag: \<open>True\<close>
  when it returned, \<open>False\<close> when it threw. \<open>run_steps\<close> runs statements in sequence and
  stops at the first that throws, as a block of \<^verbatim>\<open>await\<close>s inside \<^verbatim>\<open>try\<close> does.
\<close>

type_synonym step = "host \<Rightarrow> bool \<times> host"

fun run_steps :: "step list \<Rightarrow> step" where
  "run_steps [] h = (True, h)"
| "run_steps (s # ss) h = (case s h of (True, h') \<Rightarrow> run_steps ss h' | (False, h') \<Rightarrow> (False, h'))"

definition lumia :: "(lumia_call \<Rightarrow> bool) \<Rightarrow> lumia_call \<Rightarrow> step" where
  "lumia throws c h = (if throws c then (False, h) else (True, h\<lparr>calls := calls h @ [c]\<rparr>))"

definition setVariable :: "(lumia_call \<Rightarrow> bool) \<Rightarrow> string \<Rightarrow> js_value \<Rightarrow> step" where
  "setVariable throws name v = lumia throws (SetVariable name v)"

text \<open>
  \<^verbatim>\<open>_toast\<close>: throttled, and a failing \<^verbatim>\<open>showToast\<close> is swallowed. All readings of the
  clock during one handler run are the one instant \<open>now\<close>.
\<close>

definition toast :: "(lumia_call \<Rightarrow> bool) \<Rightarrow> settings \<Rightarrow> int \<Rightarrow> toast_text \<Rightarrow> int \<Rightarrow> bool \<Rightarrow> step" where
  "toast throws S now message timeMs isVerbose h =
     (if \<not> debugToasts S then (True, h)
      else if now - lastToastMs h < 800 then (True, h)
      else if isVerbose \<and> now - lastVerboseToastMs h < 250 then (True, h)
      else
        (let h1 = h\<lparr>lastToastMs := now\<rparr>;
             h2 = (if isVerbose then h1\<lparr>lastVerboseToastMs := now\<rparr> else h1)
         in (True, snd (lumia throws (ShowToast message timeMs) h2))))"

definition setDeviceConnected :: "(lumia_call \<Rightarrow> bool) \<Rightarrow> settings \<Rightarrow> int \<Rightarrow> bool \<Rightarrow> step" where
  "setDeviceConnected throws S now isConnected h =
     (if deviceConnected h = isConnected then (True, h)
      else
        run_steps
          [setVariable throws ''device_connected'' (VBool isConnected),
           (if isConnected then toast throws S now LumiConConnected 2500 False
            else toast throws S now LumiConOffline 2500 False)]
          (h\<lparr>deviceConnected := isConnected\<rparr>))"

definition formatStatusText :: "host \<Rightarrow> int \<Rightarrow> status_text" where
  "formatStatusText h nowMs =
     (if \<not> deviceConnected h \<or> lastSeenMs h = 0 then OFFLINE
      else
        (let ageSec = max 0 ((nowMs - lastSeenMs h) div 1000);
             rssiPart = (if lastRssi h \<noteq> 0 then Some (lastRssi h) else None)
         in CONNECTED rssiPart ageSec))"

definition updateDeviceStatusText :: "(lumia_call \<Rightarrow> bool) \<Rightarrow> int \<Rightarrow> bool \<Rightarrow> step" where
  "updateDeviceStatusText throws nowMs force h =
     (let text = formatStatusText h nowMs
      in if \<not> force \<and> text = lastStatusText h then (True, h)
         else setVariable throws ''device_status_text'' (VStatus text) (h\<lparr>lastStatusText := text\<rparr>))"

subsection \<open>The liveness timer\<close>

text \<open>\<^verbatim>\<open>_tickStatusTimer\<close>, run at the instant \<open>nowMs\<close>; whatever it throws is swallowed.\<close>

definition tickStatusTimer :: "(lumia_call \<Rightarrow> bool) \<Rightarrow> settings \<Rightarrow> int \<Rightarrow> host \<Rightarrow> host" where
  "tickStatusTimer throws S nowMs h =
     (let offlineMs = getOfflineTimeoutMs S
      in snd (run_steps
               [(\<lambda>h. if deviceConnected h \<and> lastSeenMs h \<noteq> 0 \<and> nowMs - lastSeenMs h > offlineMs
                     then setDeviceConnected throws S nowMs False h
                     else (True, h)),
                updateDeviceStatusText throws nowMs False]
               h))"

text \<open>
  \<^verbatim>\<open>setInterval(..., 5000)\<close> started at \<open>start\<close>: the instants of the first \<open>n\<close> ticks, and
  the state after the ticks at the instants \<open>ts\<close> when no request arrives in between.
\<close>

definition tick_times :: "int \<Rightarrow> nat \<Rightarrow> int list" where
  "tick_times start n = map (\<lambda>k. start + 5000 * (int k + 1)) [0..<n]"

definition run_ticks :: "(lumia_call \<Rightarrow> bool) \<Rightarrow> settings \<Rightarrow> int list \<Rightarrow> host \<Rightarrow> host" where
  "run_ticks throws S ts h = foldl (\<lambda>h t. tickStatusTimer throws S t h) h ts"

subsection \<open>The request handler\<close>

definition stripMappedPrefix :: "string \<Rightarrow> string" where
  "stripMappedPrefix s = (if take 7 s = ''::ffff:'' then drop 7 s else s)"

text \<open>
  The statements of \<^verbatim>\<open>_handleRequest\<close> from \<^verbatim>\<open>const isLong = ...\<close> down to the update of
  the dedupe map, in three parts: the block under \<^verbatim>\<open>// Update device cache + variables\<close>
  up to the optional verbose toast, the alert, and the update of the map (which cannot
  throw). The key labels do not change during a run, so \<^verbatim>\<open>keyLabel\<close> is read from the
  state where it is used.
\<close>

definition keyIndexOf :: "int \<Rightarrow> int" where
  "keyIndexOf eventNumber =
     (if eventNumber \<ge> HOST_KEY_COUNT then eventNumber - HOST_KEY_COUNT else eventNumber)"

definition kindOf :: "int \<Rightarrow> string" where
  "kindOf eventNumber = (if eventNumber \<ge> HOST_KEY_COUNT then ''long'' else ''short'')"

definition alertKeyOf :: "int \<Rightarrow> string" where
  "alertKeyOf eventNumber =
     (if eventNumber \<ge> HOST_KEY_COUNT then ''matrix_6x6_long'' else ''matrix_6x6_short'')"

definition remoteIpOf :: "request \<Rightarrow> string" where
  "remoteIpOf req = stripMappedPrefix (case remoteAddress req of None \<Rightarrow> [] | Some a \<Rightarrow> a)"

definition updateCacheAndVariables ::
  "(lumia_call \<Rightarrow> bool) \<Rightarrow> settings \<Rightarrow> int \<Rightarrow> request \<Rightarrow> int \<Rightarrow> int option \<Rightarrow> string \<Rightarrow> int \<Rightarrow> int \<Rightarrow> step" where
  "updateCacheAndVariables throws S nowMs req eventNumber sq devId held rssi =
     (let keyIndex = keyIndexOf eventNumber;
          kind = kindOf eventNumber;
          receivedAt = nowMs;
          remoteIp = remoteIpOf req
      in run_steps
           [(\<lambda>h. (True, h\<lparr>lastSeenMs := nowMs, lastRssi := rssi, deviceId := devId,
                           deviceIp := remoteIp\<rparr>)),
            setDeviceConnected throws S nowMs True,
            setVariable throws ''event'' (VNum keyIndex),
            setVariable throws ''kind'' (VStr kind),
            setVariable throws ''received_at'' (VIso receivedAt),
            setVariable throws ''device_id'' (VStr devId),
            setVariable throws ''device_ip'' (VStr remoteIp),
            setVariable throws ''device_last_seen'' (VIso receivedAt),
            setVariable throws ''device_rssi'' (VNum rssi),
            setVariable throws ''seq'' (VNum (case sq of None \<Rightarrow> 0 | Some s \<Rightarrow> s)),
            setVariable throws ''held_ms'' (VNum held),
            (\<lambda>h. setVariable throws ''key_label'' (VStr (getKeyLabel h kind keyIndex)) h),
            updateDeviceStatusText throws nowMs True,
            (\<lambda>h. if toastVerbosityOf S = ''verbose''
                  then toast throws S nowMs (InputToast (getKeyLabel h kind keyIndex) keyIndex kind)
                         1200 True h
                  else (True, h))])"

definition triggerMatrixAlert ::
  "(lumia_call \<Rightarrow> bool) \<Rightarrow> int \<Rightarrow> request \<Rightarrow> int \<Rightarrow> int option \<Rightarrow> string \<Rightarrow> int \<Rightarrow> int \<Rightarrow> step" where
  "triggerMatrixAlert throws nowMs req eventNumber sq devId held rssi h =
     lumia throws
       (TriggerAlert
          \<lparr>alert = alertKeyOf eventNumber, dynamic_value = keyIndexOf eventNumber,
           x_event = keyIndexOf eventNumber, x_kind = kindOf eventNumber,
           x_received_at = nowMs, x_device_id = devId, x_device_ip = remoteIpOf req,
           x_device_last_seen = nowMs, x_device_rssi = rssi, x_device_connected = True,
           x_seq = (case sq of None \<Rightarrow> 0 | Some s \<Rightarrow> s), x_held_ms = held,
           x_key_label = getKeyLabel h (kindOf eventNumber) (keyIndexOf eventNumber)\<rparr>) h"

definition recordSeq :: "string \<Rightarrow> int option \<Rightarrow> step" where
  "recordSeq devId sq h =
     (True, if devId \<noteq> [] \<and> sq \<noteq> None
            then h\<lparr>lastSeqByDevice := (lastSeqByDevice h)(devId \<mapsto> the sq)\<rparr>
            else h)"

definition processEvent ::
  "(lumia_call \<Rightarrow> bool) \<Rightarrow> settings \<Rightarrow> int \<Rightarrow> request \<Rightarrow> int \<Rightarrow> int option \<Rightarrow> string \<Rightarrow> int \<Rightarrow> int \<Rightarrow> step" where
  "processEvent throws S nowMs req eventNumber sq devId held rssi =
     run_steps
       [updateCacheAndVariables throws S nowMs req eventNumber sq devId held rssi,
        triggerMatrixAlert throws nowMs req eventNumber sq devId held rssi,
        recordSeq devId sq]"

text \<open>
  The \<^verbatim>\<open>catch\<close> block: log the error, then answer 500. If the logging call itself throws,
  the promise of the handler rejects and no response is sent (\<open>None\<close>).
\<close>

definition catchError :: "(lumia_call \<Rightarrow> bool) \<Rightarrow> host \<Rightarrow> response option \<times> host" where
  "catchError throws h =
     (case lumia throws LogError h of
        (True, h') \<Rightarrow> (Some (500, ServerError), h')
      | (False, h') \<Rightarrow> (None, h'))"

text \<open>\<^verbatim>\<open>_handleRequest\<close> at the instant \<open>nowMs\<close>: the response sent, and the new state.\<close>

definition handleRequest ::
  "(lumia_call \<Rightarrow> bool) \<Rightarrow> settings \<Rightarrow> int \<Rightarrow> request \<Rightarrow> host \<Rightarrow> response option \<times> host" where
  "handleRequest throws S nowMs req h =
     (if method req = ''GET'' \<and> url req = ''/health'' then (Some (200, Health), h)
      else if method req \<noteq> ''POST'' \<or> url req \<noteq> ''/event'' then (Some (404, NotFound), h)
      else
        (let expectedSecret = getSecret S;
             headerValue = trim (case secretHeader req of None \<Rightarrow> [] | Some v \<Rightarrow> v)
         in if expectedSecret \<noteq> [] \<and> (headerValue = [] \<or> headerValue \<noteq> expectedSecret)
            then (Some (401, Unauthorized), h)
            else
              (case jsonBody req of
                 None \<Rightarrow> catchError throws h
               | Some b \<Rightarrow>
                   (let eventNumber = b_event b;
                        sq = (case b_seq b of Whole s \<Rightarrow> Some s | NotWhole \<Rightarrow> None);
                        devId = (case b_deviceId b of Some d \<Rightarrow> d | None \<Rightarrow> []);
                        held = (case b_heldMs b of Whole m \<Rightarrow> m | NotWhole \<Rightarrow> 0);
                        rssi = (case b_rssi b of Some r \<Rightarrow> r | None \<Rightarrow> 0);
                        ackPayload = Ack sq
                    in case eventNumber of
                         NotWhole \<Rightarrow> (Some (400, InvalidEventNumber sq), h)
                       | Whole n \<Rightarrow>
                           if n < EVENT_MIN \<or> n > EVENT_MAX
                           then (Some (400, InvalidEventNumber sq), h)
                           else if devId \<noteq> [] \<and> sq \<noteq> None \<and>
                                   the sq \<le> (case lastSeqByDevice h devId of None \<Rightarrow> 0 | Some p \<Rightarrow> p)
                           then (Some (200, ackPayload), h)
                           else
                             (case processEvent throws S nowMs req n sq devId held rssi h of
                                (True, h') \<Rightarrow> (Some (200, ackPayload), h')
                              | (False, h') \<Rightarrow> catchError throws h')))))"

text \<open>
  The states the plugin can be in: the constructor's state, and whatever requests, timer
  ticks and refreshed key labels make of it.
\<close>

inductive reachable :: "host \<Rightarrow> bool" where
  init: "reachable host_init"
| request: "reachable h \<Longrightarrow> reachable (snd (handleRequest throws S nowMs req h))"
| tick: "reachable h \<Longrightarrow> reachable (tickStatusTimer throws S nowMs h)"
| labels: "reachable h \<Longrightarrow> reachable (h\<lparr>labelsShort := a, labelsLong := b, labelsFallback := c\<rparr>)"

text \<open>The connectivity-changed notifications among the calls: \<^verbatim>\<open>device_connected\<close> set to \<open>v\<close>.\<close>

definition connectivity_notifications :: "bool \<Rightarrow> lumia_call list \<Rightarrow> nat" where
  "connectivity_notifications v cs = length (filter (\<lambda>c. c = SetVariable ''device_connected'' (VBool v)) cs)"

fun alerts :: "lumia_call list \<Rightarrow> alert list" where
  "alerts [] = []"
| "alerts (TriggerAlert a # cs) = a # alerts cs"
| "alerts (_ # cs) = alerts cs"

text \<open>
  What a statement that only publishes variables and toasts may do: it leaves the dedupe
  map alone and triggers no alert.
\<close>

definition publishes_only :: "host \<Rightarrow> host \<Rightarrow> bool" where
  "publishes_only h h' =
     (lastSeqByDevice h' = lastSeqByDevice h \<and> (\<exists>cs. calls h' = calls h @ cs \<and> alerts cs = []))"

text \<open>
  What a statement that only touches the display (status text, toasts) may do: it leaves
  the dedupe map, the connected flag and the last-seen time alone, triggers no alert and
  sends no connectivity notification.
\<close>

definition display_only :: "host \<Rightarrow> host \<Rightarrow> bool" where
  "display_only h h' =
     (lastSeqByDevice h' = lastSeqByDevice h \<and> deviceConnected h' = deviceConnected h \<and>
      lastSeenMs h' = lastSeenMs h \<and>
      (\<exists>cs. calls h' = calls h @ cs \<and> alerts cs = [] \<and>
            (\<forall>v. connectivity_notifications v cs = 0)))"

text \<open>
  The ticks of a timer started at \<open>start\<close> that have fired by the instant \<open>T\<close>: the ticks
  \<open>start + 5000\<close>, \<open>start + 10000\<close>, ... that are not later than \<open>T\<close>.
\<close>

definition ticks_until :: "int \<Rightarrow> int \<Rightarrow> int list" where
  "ticks_until start T = tick_times start (nat ((T - start) div 5000))"

subsection \<open>Concrete requests and settings\<close>

text \<open>
  A Lumia API on which no call throws, one on which \<^verbatim>\<open>triggerAlert\<close> throws, and one on
  which every call throws.
\<close>

definition never_throws :: "lumia_call \<Rightarrow> bool" where
  "never_throws c = False"

definition alert_throws :: "lumia_call \<Rightarrow> bool" where
  "alert_throws c = (case c of TriggerAlert a \<Rightarrow> True | _ \<Rightarrow> False)"

definition always_throws :: "lumia_call \<Rightarrow> bool" where
  "always_throws c = True"

text \<open>
  The settings every getter falls back to, the same with the secret \<^verbatim>\<open>abc\<close>, and with the
  secret \<^verbatim>\<open>abc\<close> followed by a space.
\<close>

definition default_settings :: settings where
  "default_settings =
     \<lparr>secret = None, offlineTimeoutSec = Unset, debugToasts = False,
      toastVerbosity = ''important''\<rparr>"

definition abc_settings :: settings where
  "abc_settings = default_settings\<lparr>secret := Some ''abc''\<rparr>"

definition padded_settings :: settings where
  "padded_settings = default_settings\<lparr>secret := Some ''abc ''\<rparr>"

text \<open>
  The message of a short press of key 5 from the device \<^verbatim>\<open>esp-1\<close> with sequence number
  \<open>s\<close>, and the request that carries it with the secret header \<open>hdr\<close>.
\<close>

definition event_body :: "int \<Rightarrow> json_body" where
  "event_body s =
     \<lparr>b_event = Whole 5, b_seq = Whole s, b_deviceId = Some ''esp-1'',
      b_heldMs = Whole 120, b_rssi = Some (- 60)\<rparr>"

definition event_request :: "string option \<Rightarrow> int \<Rightarrow> request" where
  "event_request hdr s =
     \<lparr>method = ''POST'', url = ''/event'', secretHeader = hdr,
      remoteAddress = Some ''192.168.1.50'', jsonBody = Some (event_body s)\<rparr>"

text \<open>The plugin after its first message, sequence number 7, handled at the instant 1000.\<close>

definition seen_host :: host where
  "seen_host = snd (handleRequest never_throws default_settings 1000 (event_request None 7) host_init)"

section \<open>Facts about the relay client\<close>

lemma delays_append [simp]: "delays (xs @ ys) = delays xs @ delays ys"
  by (induction xs rule: delays.induct) simp_all

lemma timeouts_append [simp]: "timeouts (xs @ ys) = timeouts xs @ timeouts ys"
  by (induction xs rule: timeouts.induct) simp_all

lemma posts_append [simp]: "posts (xs @ ys) = posts xs @ posts ys"
  by (induction xs rule: posts.induct) simp_all

lemma backoffs_0 [simp]: "backoffs b 0 = []"
  by (simp add: backoffs_def)

lemma backoffs_Suc: "backoffs b (Suc n) = b # backoffs (b * 2) n"
proof -
  have "[0..<Suc n] = 0 # map Suc [0..<n]"
    by (simp add: upt_conv_Cons map_Suc_upt del: upt_Suc)
  then show ?thesis
    by (simp add: backoffs_def comp_def mult.assoc del: upt_Suc)
qed

lemma backoffs_200: "n \<le> 3 \<Longrightarrow> backoffs 200 n = take n [200, 400, 800]"
proof -
  assume "n \<le> 3"
  then consider "n = 0" | "n = 1" | "n = 2" | "n = 3" by linarith
  then show ?thesis
    by cases (simp_all add: backoffs_def upt_conv_Cons)
qed

lemma outcomes_step:
  "a \<le> 3 \<Longrightarrow> outcomes e mode sq a = attempt_succeeds mode sq (net e a) # outcomes e mode sq (Suc a)"
  by (simp add: outcomes_def upt_conv_Cons)

lemma outcomes_done: "\<not> a \<le> 3 \<Longrightarrow> outcomes e mode sq a = []"
  by (simp add: outcomes_def)

lemma length_outcomes: "length (outcomes e mode sq a) = 4 - a"
  by (simp add: outcomes_def)

lemma failures_le: "failures oks \<le> length oks"
  by (simp add: failures_def length_takeWhile_le)

lemma trace_emit [simp]: "trace (emit x g) = trace g @ [x]"
  by (simp add: emit_def)

lemma emit_frame: "emit x g = g\<lparr>trace := trace (emit x g)\<rparr>"
  by (simp add: emit_def)

lemma attempts_stop: "\<not> a \<le> 3 \<Longrightarrow> attempts e body sq a b g = (False, g)"
  by (simp add: attempts.simps)

lemma attempts_win:
  assumes "a \<le> 3" and "attempt_succeeds (reliabilityMode g) sq (net e a)"
  shows "attempts e body sq a b g =
           (True, g\<lparr>lastAckSeq := sq,
                    trace := trace g @ [HttpSetTimeout 1200, HttpPost body, HttpEnd]\<rparr>)"
  using assms
  by (auto simp: attempts.simps [of e body sq a] Let_def attempt_succeeds_def emit_def
           split: attempt_result.splits option.splits)

text \<open>A failed attempt adds one timeout, at most one post and the delay \<open>b\<close>, and goes on.\<close>

lemma attempts_retry:
  assumes "a \<le> 3" and "\<not> attempt_succeeds (reliabilityMode g) sq (net e a)"
  shows "\<exists>es. attempts e body sq a b g
                 = attempts e body sq (a + 1) (b * 2) (g\<lparr>trace := trace g @ es\<rparr>)
            \<and> timeouts es = [1200] \<and> delays es = [b] \<and> set (posts es) \<subseteq> {body}"
proof (cases "net e a")
  case BeginFailed
  with assms have "attempts e body sq a b g = attempts e body sq (a + 1) (b * 2)
      (g\<lparr>trace := trace g @ [HttpSetTimeout 1200, HttpEnd, Delay b]\<rparr>)"
    by (simp add: attempts.simps [of e body sq a] Let_def emit_def)
  then show ?thesis
    by (intro exI [of _ "[HttpSetTimeout 1200, HttpEnd, Delay b]"]) simp
next
  case (Responded code resp)
  show ?thesis
  proof (cases "200 \<le> code \<and> code < 300")
    case True
    with assms Responded have "attempts e body sq a b g = attempts e body sq (a + 1) (b * 2)
        (g\<lparr>trace := trace g @ [HttpSetTimeout 1200, HttpPost body, HttpEnd, Delay b]\<rparr>)"
      by (auto simp: attempts.simps [of e body sq a] Let_def attempt_succeeds_def emit_def
               split: option.splits)
    then show ?thesis
      by (intro exI [of _ "[HttpSetTimeout 1200, HttpPost body, HttpEnd, Delay b]"]) simp
  next
    case False
    with assms Responded have "attempts e body sq a b g = attempts e body sq (a + 1) (b * 2)
        (g\<lparr>trace := trace g @ [HttpSetTimeout 1200, HttpPost body, HttpEnd, Delay b, Yield]\<rparr>)"
      by (auto simp: attempts.simps [of e body sq a] Let_def emit_def)
    then show ?thesis
      by (intro exI [of _ "[HttpSetTimeout 1200, HttpPost body, HttpEnd, Delay b, Yield]"]) simp
  qed
qed

text \<open>
  The whole loop from attempt \<open>a\<close> with backoff \<open>b\<close>: it succeeds exactly when one of the
  remaining attempts does; it makes one attempt per failure plus the successful one; the
  delays are \<open>b, 2b, 4b, \<dots>\<close>, one per failure; nothing but \<open>trace\<close> and \<open>lastAckSeq\<close>
  changes.
\<close>

lemma attempts_run:
  assumes "attempts e body sq a b g = (ok, g')"
  shows "ok = (failures (outcomes e (reliabilityMode g) sq a) < 4 - a) \<and>
         (\<exists>es. g' = g\<lparr>lastAckSeq := lastAckSeq g', trace := trace g @ es\<rparr> \<and>
               timeouts es = replicate (failures (outcomes e (reliabilityMode g) sq a)
                                          + (if ok then 1 else 0)) 1200 \<and>
               delays es = backoffs b (failures (outcomes e (reliabilityMode g) sq a)) \<and>
               set (posts es) \<subseteq> {body})"
  using assms
proof (induction "4 - a" arbitrary: a b g)
  case 0
  then have "\<not> a \<le> 3" by simp
  with "0.prems" have "\<not> ok" and "g' = g"
    by (simp_all add: attempts_stop)
  with \<open>\<not> a \<le> 3\<close> show ?case
    by (intro conjI exI [of _ "[]"]) (simp_all add: outcomes_done failures_def)
next
  case (Suc n)
  then have a: "a \<le> 3" and n: "n = 4 - (a + 1)" by simp_all
  note step = outcomes_step [OF a, of e "reliabilityMode g" sq]
  show ?case
  proof (cases "attempt_succeeds (reliabilityMode g) sq (net e a)")
    case True
    from attempts_win [OF a True, of body b] Suc.prems True a show ?thesis
      by (auto simp: step failures_def
               intro!: exI [of _ "[HttpSetTimeout 1200, HttpPost body, HttpEnd]"])
  next
    case False
    from attempts_retry [OF a False, of body b] obtain es where
      run: "attempts e body sq a b g
              = attempts e body sq (a + 1) (b * 2) (g\<lparr>trace := trace g @ es\<rparr>)"
      and es: "timeouts es = [1200]" "delays es = [b]" "set (posts es) \<subseteq> {body}"
      by blast
    let ?g3 = "g\<lparr>trace := trace g @ es\<rparr>"
    let ?f = "failures (outcomes e (reliabilityMode g) sq (Suc a))"
    from run Suc.prems have "attempts e body sq (a + 1) (b * 2) ?g3 = (ok, g')" by simp
    from Suc.hyps(1) [OF n this]
    obtain es' where
      ok: "ok = (?f < 4 - (a + 1))"
      and g': "g' = ?g3\<lparr>lastAckSeq := lastAckSeq g', trace := trace ?g3 @ es'\<rparr>"
      and es': "timeouts es' = replicate (?f + (if ok then 1 else 0)) 1200"
        "delays es' = backoffs (b * 2) ?f" "set (posts es') \<subseteq> {body}"
      by auto
    have f: "failures (outcomes e (reliabilityMode g) sq a) = Suc ?f"
      using False by (simp add: step failures_def)
    from g' have "g' = g\<lparr>lastAckSeq := lastAckSeq g', trace := trace g @ (es @ es')\<rparr>"
      by simp
    with ok a es es' show ?thesis
      unfolding f
      by (intro conjI exI [of _ "es @ es'"]) (auto simp: backoffs_Suc)
  qed
qed

lemma postEventToPlugin_run:
  assumes "postEventToPlugin e ev k pk held sq g = (ok, g')"
  shows "\<exists>es. g' = g\<lparr>lastAckSeq := lastAckSeq g', trace := trace g @ es\<rparr> \<and>
           trace g' = trace g @ es \<and>
           (if wifiConnected e
            then ok = (failures (outcomes e (reliabilityMode g) sq 1) < 3) \<and>
                 timeouts es = replicate (failures (outcomes e (reliabilityMode g) sq 1)
                                            + (if ok then 1 else 0)) 1200 \<and>
                 delays es = take (failures (outcomes e (reliabilityMode g) sq 1)) [200, 400, 800]
            else \<not> ok \<and> es = []) \<and>
           (\<forall>m \<in> set (posts es). m_seq m = sq \<and> m_event m = ev \<and> m_key m = k \<and>
                                   m_press m = pk \<and> m_heldMs m = held)"
proof (cases "wifiConnected e")
  case False
  with assms have "\<not> ok" and "g' = g"
    by (simp_all add: postEventToPlugin_def)
  with False show ?thesis
    by (intro exI [of _ "[]"]) simp
next
  case True
  let ?body = "\<lparr>m_event = ev, m_seq = sq, m_deviceId = deviceIdent g, m_key = k, m_press = pk,
                 m_heldMs = held, m_uptimeMs = millisPost e, m_rssi = Some (wifiRSSI e)\<rparr>"
  let ?f = "failures (outcomes e (reliabilityMode g) sq 1)"
  from assms True have "attempts e ?body sq 1 200 g = (ok, g')"
    by (simp add: postEventToPlugin_def)
  from attempts_run [OF this] obtain es where
    ok: "ok = (?f < 3)"
    and g': "g' = g\<lparr>lastAckSeq := lastAckSeq g', trace := trace g @ es\<rparr>"
    and es: "timeouts es = replicate (?f + (if ok then 1 else 0)) 1200"
      "delays es = backoffs 200 ?f" "set (posts es) \<subseteq> {?body}"
    by auto
  have "?f \<le> 3"
    using failures_le [of "outcomes e (reliabilityMode g) sq 1"] by (simp add: length_outcomes)
  then have "backoffs 200 ?f = take ?f [200, 400, 800]"
    by (rule backoffs_200)
  moreover from arg_cong [OF g', of trace] have "trace g' = trace g @ es"
    by simp
  ultimately show ?thesis
    using True ok g' es by (intro exI [of _ es]) auto
qed

section \<open>Facts about the classifier\<close>

lemma updateTransientStatus_run:
  "\<exists>ts es. updateTransientStatus e g = g\<lparr>transientStatus := ts, trace := trace g @ es\<rparr>
        \<and> posts es = [] \<and> timeouts es = [] \<and> delays es = []"
proof (cases "transientStatus g \<noteq> [] \<and> 0 \<le> sint (millisExpire e - transientUntilMs g)")
  case True
  then show ?thesis
    by (intro exI [of _ "[]"] exI [of _ "[Redraw]"]) (simp add: updateTransientStatus_def emit_def)
next
  case False
  then show ?thesis
    by (intro exI [of _ "transientStatus g"] exI [of _ "[]"]) (auto simp: updateTransientStatus_def)
qed

text \<open>
  What the release block does to the gateway: the message it posts carries the sequence
  number \<open>seqCounter g + 1\<close>, the held time and its classification; the verdict of the
  relay client ends up in \<open>lastPostOk\<close> and on the display.
\<close>

lemma release_run:
  "\<exists>ok ack es.
      release e k now g =
        g\<lparr>isDown := (isDown g)(k := False),
          lastKeyText := Some (k, LONG_PRESS_MS \<le> now - pressStart g k),
          seqCounter := seqCounter g + 1, lastSeqSent := seqCounter g + 1,
          lastAckSeq := ack, lastPostOk := ok,
          transientStatus := (if ok then ''ACK OK'' else ''ACK FAIL''),
          transientUntilMs := millisStatus e + (if ok then 2000 else 3000),
          trace := trace g @ [Redraw] @ es @ [Blink (if ok then 1 else 2) 30 60, Redraw]\<rparr> \<and>
      (if wifiConnected e
       then ok = (failures (outcomes e (reliabilityMode g) (seqCounter g + 1) 1) < 3) \<and>
            timeouts es = replicate (failures (outcomes e (reliabilityMode g) (seqCounter g + 1) 1)
                                       + (if ok then 1 else 0)) 1200 \<and>
            delays es = take (failures (outcomes e (reliabilityMode g) (seqCounter g + 1) 1))
                          [200, 400, 800]
       else \<not> ok \<and> es = []) \<and>
      (\<forall>m \<in> set (posts es).
          m_seq m = seqCounter g + 1 \<and> m_key m = k \<and> m_heldMs m = now - pressStart g k \<and>
          m_event m = (if LONG_PRESS_MS \<le> now - pressStart g k then k + 36 else k) \<and>
          m_press m = (if LONG_PRESS_MS \<le> now - pressStart g k then ''long'' else ''short''))"
proof -
  let ?held = "now - pressStart g k"
  let ?long = "LONG_PRESS_MS \<le> ?held"
  let ?g4 = "g\<lparr>isDown := (isDown g)(k := False), lastKeyText := Some (k, ?long),
               trace := trace g @ [Redraw],
               seqCounter := seqCounter g + 1, lastSeqSent := seqCounter g + 1\<rparr>"
  let ?ev = "if ?long then k + 36 else k"
  let ?pk = "if ?long then ''long'' else ''short''"
  obtain ok g5 where post: "postEventToPlugin e ?ev k ?pk ?held (seqCounter g + 1) ?g4 = (ok, g5)"
    by (cases "postEventToPlugin e ?ev k ?pk ?held (seqCounter g + 1) ?g4") blast
  from postEventToPlugin_run [OF post] obtain es where
    g5: "g5 = ?g4\<lparr>lastAckSeq := lastAckSeq g5, trace := trace ?g4 @ es\<rparr>"
    and run: "if wifiConnected e
       then ok = (failures (outcomes e (reliabilityMode g) (seqCounter g + 1) 1) < 3) \<and>
            timeouts es = replicate (failures (outcomes e (reliabilityMode g) (seqCounter g + 1) 1)
                                       + (if ok then 1 else 0)) 1200 \<and>
            delays es = take (failures (outcomes e (reliabilityMode g) (seqCounter g + 1) 1))
                          [200, 400, 800]
       else \<not> ok \<and> es = []"
    and msgs: "\<forall>m \<in> set (posts es). m_seq m = seqCounter g + 1 \<and> m_event m = ?ev \<and> m_key m = k \<and>
                 m_press m = ?pk \<and> m_heldMs m = ?held"
    by auto
  have "release e k now g =
          (case postEventToPlugin e ?ev k ?pk ?held (seqCounter g + 1) ?g4 of
             (ok, g5) \<Rightarrow>
               (let g6 = g5\<lparr>lastPostOk := ok\<rparr>;
                    g7 = (if ok then setTransientStatus e ''ACK OK'' 2000 (emit (Blink 1 30 60) g6)
                          else setTransientStatus e ''ACK FAIL'' 3000 (emit (Blink 2 30 60) g6))
                in emit Redraw g7))"
    by (simp add: release_def Let_def emit_def)
  also have "\<dots> =
          (let g6 = g5\<lparr>lastPostOk := ok\<rparr>;
               g7 = (if ok then setTransientStatus e ''ACK OK'' 2000 (emit (Blink 1 30 60) g6)
                     else setTransientStatus e ''ACK FAIL'' 3000 (emit (Blink 2 30 60) g6))
           in emit Redraw g7)"
    by (simp only: post prod.case)
  also have "\<dots> = g5\<lparr>lastPostOk := ok,
                 transientStatus := (if ok then ''ACK OK'' else ''ACK FAIL''),
                 transientUntilMs := millisStatus e + (if ok then 2000 else 3000),
                 trace := trace g5 @ [Blink (if ok then 1 else 2) 30 60, Redraw]\<rparr>"
    by (simp add: Let_def setTransientStatus_def emit_def)
  also have "\<dots> =
        g\<lparr>isDown := (isDown g)(k := False), lastKeyText := Some (k, ?long),
          seqCounter := seqCounter g + 1, lastSeqSent := seqCounter g + 1,
          lastAckSeq := lastAckSeq g5, lastPostOk := ok,
          transientStatus := (if ok then ''ACK OK'' else ''ACK FAIL''),
          transientUntilMs := millisStatus e + (if ok then 2000 else 3000),
          trace := trace g @ [Redraw] @ es @ [Blink (if ok then 1 else 2) 30 60, Redraw]\<rparr>"
    by (subst g5, subst (2) g5, cases g) simp
  finally have "release e k now g =
        g\<lparr>isDown := (isDown g)(k := False), lastKeyText := Some (k, ?long),
          seqCounter := seqCounter g + 1, lastSeqSent := seqCounter g + 1,
          lastAckSeq := lastAckSeq g5, lastPostOk := ok,
          transientStatus := (if ok then ''ACK OK'' else ''ACK FAIL''),
          transientUntilMs := millisStatus e + (if ok then 2000 else 3000),
          trace := trace g @ [Redraw] @ es @ [Blink (if ok then 1 else 2) 30 60, Redraw]\<rparr>" .
  with run msgs show ?thesis
    by (intro exI [of _ ok] exI [of _ "lastAckSeq g5"] exI [of _ es]) simp
qed

text \<open>
  One pass of \<open>loop\<close> read off by cases: what was decoded, whether the key is in range,
  and what the key's session says.
\<close>

lemma loop_no_frame:
  assumes "readPicoPacket (dec g) rx = (None, d, rx')"
  shows "\<exists>ts es. fst (loop e rx g) = g\<lparr>dec := d, transientStatus := ts, trace := trace g @ es\<rparr>
             \<and> posts es = [] \<and> timeouts es = [] \<and> delays es = []"
proof -
  from updateTransientStatus_run [of e g] obtain ts es where
    u: "updateTransientStatus e g = g\<lparr>transientStatus := ts, trace := trace g @ es\<rparr>"
    and es: "posts es = []" "timeouts es = []" "delays es = []"
    by blast
  from assms have "fst (loop e rx g) = emit Yield ((updateTransientStatus e g)\<lparr>dec := d\<rparr>)"
    by (simp add: loop_def Let_def u)
  also have "\<dots> = g\<lparr>dec := d, transientStatus := ts, trace := trace g @ (es @ [Yield])\<rparr>"
    unfolding u by (cases g) (simp add: emit_def)
  finally show ?thesis
    using es
    by (intro exI [of _ ts] exI [of _ "es @ [Yield]"]) simp
qed

lemma loop_frame:
  assumes "readPicoPacket (dec g) rx = (Some (ty, k), d, rx')"
  shows "\<exists>ts es g4.
           g4 = g\<lparr>dec := d, picoSeen := True, transientStatus := ts, trace := trace g @ es\<rparr> \<and>
           posts es = [] \<and> timeouts es = [] \<and> delays es = [] \<and>
           fst (loop e rx g) =
             (if k \<ge> KEY_COUNT then g4
              else if ty = 1 then
                (if \<not> isDown g k
                 then emit Yield (g4\<lparr>isDown := (isDown g)(k := True),
                                      pressStart := (pressStart g)(k := millisNow e)\<rparr>)
                 else emit Yield g4)
              else if isDown g k then emit Yield (release e k (millisNow e) g4)
              else emit Yield g4)"
proof -
  from updateTransientStatus_run [of e g] obtain ts es where
    u: "updateTransientStatus e g = g\<lparr>transientStatus := ts, trace := trace g @ es\<rparr>"
    and es: "posts es = []" "timeouts es = []" "delays es = []"
    by blast
  let ?es = "es @ (if picoSeen g then [] else [Blink 1 40 80]) @ (if ty = 1 then [BlinkPressTick] else [])"
  let ?g4 = "g\<lparr>dec := d, picoSeen := True, transientStatus := ts, trace := trace g @ ?es\<rparr>"
  have g4: "(let g2 = (updateTransientStatus e g)\<lparr>dec := d\<rparr>;
                 g3 = (if \<not> picoSeen g2 then emit (Blink 1 40 80) (g2\<lparr>picoSeen := True\<rparr>) else g2)
             in if ty = 1 then emit BlinkPressTick g3 else g3) = ?g4"
    unfolding u by (cases g) (simp add: Let_def emit_def)
  have "fst (loop e rx g) =
          (let g2 = (updateTransientStatus e g)\<lparr>dec := d\<rparr>;
               g3 = (if \<not> picoSeen g2 then emit (Blink 1 40 80) (g2\<lparr>picoSeen := True\<rparr>) else g2);
               g4 = (if ty = 1 then emit BlinkPressTick g3 else g3)
           in if k \<ge> KEY_COUNT then g4
              else if ty = 1 then
                (if \<not> isDown g4 k
                 then emit Yield (g4\<lparr>isDown := (isDown g4)(k := True),
                                      pressStart := (pressStart g4)(k := millisNow e)\<rparr>)
                 else emit Yield g4)
              else if isDown g4 k then emit Yield (release e k (millisNow e) g4)
              else emit Yield g4)"
    using assms by (simp add: loop_def Let_def u)
  also have "\<dots> =
             (if k \<ge> KEY_COUNT then ?g4
              else if ty = 1 then
                (if \<not> isDown ?g4 k
                 then emit Yield (?g4\<lparr>isDown := (isDown ?g4)(k := True),
                                       pressStart := (pressStart ?g4)(k := millisNow e)\<rparr>)
                 else emit Yield ?g4)
              else if isDown ?g4 k then emit Yield (release e k (millisNow e) ?g4)
              else emit Yield ?g4)"
    using g4 by (simp only: Let_def)
  finally show ?thesis
    using es by (intro exI [of _ ts] exI [of _ ?es] exI [of _ ?g4]) simp
qed

section \<open>Claims on the gateway firmware\<close>

text \<open>
  C4. Encoding a frame \<open>(type, key)\<close> with \<open>sendEvent\<close> and feeding exactly those four
  bytes to the receiver's decoder, waiting for sync (state 0, whatever its two scratch
  bytes hold), returns the original \<open>(type, key)\<close>, consumes all four bytes and leaves the
  decoder waiting for sync again. This holds for every byte pair, in particular for
  \<open>type \<in> {0, 1}\<close> and \<open>key \<in> [0, 35]\<close>.
\<close>

theorem frame_roundtrip:
  "readPicoPacket \<lparr>state = 0, b1 = x, b2 = y\<rparr> (sendEvent type key)
     = (Some (type, key), \<lparr>state = 0, b1 = type, b2 = key\<rparr>, [])"
  by (simp add: sendEvent_def Let_def)






















text \<open>
  C3. A pass of \<open>loop\<close> that reads the release of a key that is down (a press outcome)
  makes at most three delivery attempts, each with the HTTP timeout 1200 ms. With \<open>f\<close>
  the number of attempts that fail before the first success under the mode's rule
  (transport failure and rejection alike), it makes \<open>f + 1\<close> attempts if \<open>f < 3\<close> and
  three otherwise, and waits the first \<open>f\<close> of the delays 200, 400, 800 ms. The verdict is
  stored in \<open>lastPostOk\<close>; when it is a failure the display shows \<open>ACK FAIL\<close>. Nothing is
  queued: whatever a pass posts carries the sequence number \<open>seqCounter + 1\<close> assigned in
  that very pass, and a pass that decodes no frame posts nothing and attempts nothing.
\<close>

theorem retry_budget_and_backoff:
  "(\<forall>ty k d rx'. readPicoPacket (dec g) rx = (Some (ty, k), d, rx') \<and> ty \<noteq> 1 \<and>
        k < KEY_COUNT \<and> isDown g k \<longrightarrow>
      (\<exists>es. trace (fst (loop e rx g)) = trace g @ es \<and>
            length (timeouts es) \<le> 3 \<and> set (timeouts es) \<subseteq> {1200} \<and>
            (let f = failures (outcomes e (reliabilityMode g) (seqCounter g + 1) 1);
                 ok = lastPostOk (fst (loop e rx g))
             in (wifiConnected e \<longrightarrow>
                   ok = (f < 3) \<and> length (timeouts es) = (if ok then f + 1 else 3) \<and>
                   delays es = take f [200, 400, 800]) \<and>
                (\<not> wifiConnected e \<longrightarrow> \<not> ok \<and> timeouts es = [] \<and> delays es = []) \<and>
                (\<not> ok \<longrightarrow> transientStatus (fst (loop e rx g)) = ''ACK FAIL'')))) \<and>
   (\<exists>es. trace (fst (loop e rx g)) = trace g @ es \<and>
         (\<forall>m \<in> set (posts es). m_seq m = seqCounter g + 1) \<and>
         (\<forall>d rx'. readPicoPacket (dec g) rx = (None, d, rx') \<longrightarrow>
            posts es = [] \<and> timeouts es = [] \<and> delays es = []))"
proof (intro conjI allI impI)
  fix ty k d rx'
  assume "readPicoPacket (dec g) rx = (Some (ty, k), d, rx') \<and> ty \<noteq> 1 \<and> k < KEY_COUNT \<and> isDown g k"
  then have frame: "readPicoPacket (dec g) rx = (Some (ty, k), d, rx')"
    and ty: "ty \<noteq> 1" and k: "k < KEY_COUNT" and down: "isDown g k"
    by simp_all
  from loop_frame [OF frame, of e] ty k down obtain ts es0 where
    es0: "posts es0 = []" "timeouts es0 = []" "delays es0 = []"
    and l: "fst (loop e rx g) = emit Yield (release e k (millisNow e)
              (g\<lparr>dec := d, picoSeen := True, transientStatus := ts, trace := trace g @ es0\<rparr>))"
    by (auto simp: not_le [symmetric])
  let ?g4 = "g\<lparr>dec := d, picoSeen := True, transientStatus := ts, trace := trace g @ es0\<rparr>"
  let ?f = "failures (outcomes e (reliabilityMode g) (seqCounter g + 1) 1)"
  from release_run [of e k "millisNow e" ?g4] obtain ok ack es where
    r: "release e k (millisNow e) ?g4 =
         ?g4\<lparr>isDown := (isDown ?g4)(k := False),
             lastKeyText := Some (k, LONG_PRESS_MS \<le> millisNow e - pressStart ?g4 k),
             seqCounter := seqCounter ?g4 + 1, lastSeqSent := seqCounter ?g4 + 1,
             lastAckSeq := ack, lastPostOk := ok,
             transientStatus := (if ok then ''ACK OK'' else ''ACK FAIL''),
             transientUntilMs := millisStatus e + (if ok then 2000 else 3000),
             trace := trace ?g4 @ [Redraw] @ es @ [Blink (if ok then 1 else 2) 30 60, Redraw]\<rparr>"
    and run: "if wifiConnected e
       then ok = (?f < 3) \<and> timeouts es = replicate (?f + (if ok then 1 else 0)) 1200 \<and>
            delays es = take ?f [200, 400, 800]
       else \<not> ok \<and> es = []"
    by auto
  let ?es = "es0 @ [Redraw] @ es @ [Blink (if ok then 1 else 2) 30 60, Redraw, Yield]"
  have tr: "trace (fst (loop e rx g)) = trace g @ ?es"
    and ok: "lastPostOk (fst (loop e rx g)) = ok"
    and ts: "transientStatus (fst (loop e rx g)) = (if ok then ''ACK OK'' else ''ACK FAIL'')"
    unfolding l r by (simp_all add: emit_def)
  have "?f \<le> 3"
    using failures_le [of "outcomes e (reliabilityMode g) (seqCounter g + 1) 1"]
    by (simp add: length_outcomes)
  with run show "\<exists>es. trace (fst (loop e rx g)) = trace g @ es \<and>
            length (timeouts es) \<le> 3 \<and> set (timeouts es) \<subseteq> {1200} \<and>
            (let f = ?f; ok = lastPostOk (fst (loop e rx g))
             in (wifiConnected e \<longrightarrow>
                   ok = (f < 3) \<and> length (timeouts es) = (if ok then f + 1 else 3) \<and>
                   delays es = take f [200, 400, 800]) \<and>
                (\<not> wifiConnected e \<longrightarrow> \<not> ok \<and> timeouts es = [] \<and> delays es = []) \<and>
                (\<not> ok \<longrightarrow> transientStatus (fst (loop e rx g)) = ''ACK FAIL''))"
    unfolding Let_def ok ts
    by (intro exI [of _ ?es] conjI tr) (auto simp: es0 split: if_splits)
next
  show "\<exists>es. trace (fst (loop e rx g)) = trace g @ es \<and>
         (\<forall>m \<in> set (posts es). m_seq m = seqCounter g + 1) \<and>
         (\<forall>d rx'. readPicoPacket (dec g) rx = (None, d, rx') \<longrightarrow>
            posts es = [] \<and> timeouts es = [] \<and> delays es = [])"
  proof (cases "readPicoPacket (dec g) rx")
    case (fields r d rx')
    show ?thesis
    proof (cases r)
      case None
      with fields loop_no_frame [of g rx d rx' e] obtain ts es where
        "fst (loop e rx g) = g\<lparr>dec := d, transientStatus := ts, trace := trace g @ es\<rparr>"
        "posts es = []" "timeouts es = []" "delays es = []"
        by auto
      then show ?thesis
        by (intro exI [of _ es]) simp
    next
      case (Some p)
      obtain ty k where p: "p = (ty, k)" by (cases p)
      with Some fields have frame: "readPicoPacket (dec g) rx = (Some (ty, k), d, rx')" by simp
      from loop_frame [OF frame, of e] obtain ts es0 where
        es0: "posts es0 = []"
        and l: "fst (loop e rx g) =
           (let g4 = g\<lparr>dec := d, picoSeen := True, transientStatus := ts, trace := trace g @ es0\<rparr>
            in if k \<ge> KEY_COUNT then g4
               else if ty = 1 then
                 (if \<not> isDown g k
                  then emit Yield (g4\<lparr>isDown := (isDown g)(k := True),
                                       pressStart := (pressStart g)(k := millisNow e)\<rparr>)
                  else emit Yield g4)
               else if isDown g k then emit Yield (release e k (millisNow e) g4)
               else emit Yield g4)"
        by (auto simp: Let_def)
      let ?g4 = "g\<lparr>dec := d, picoSeen := True, transientStatus := ts, trace := trace g @ es0\<rparr>"
      show ?thesis
      proof (cases "\<not> k \<ge> KEY_COUNT \<and> ty \<noteq> 1 \<and> isDown g k")
        case False
        with l have "trace (fst (loop e rx g)) = trace g @ es0
                   \<or> trace (fst (loop e rx g)) = trace g @ (es0 @ [Yield])"
          by (auto simp: Let_def emit_def)
        with es0 frame show ?thesis
          by (elim disjE; intro exI [of _ es0] exI [of _ "es0 @ [Yield]"]; simp)
      next
        case True
        from release_run [of e k "millisNow e" ?g4] obtain ok ack es where
          r: "release e k (millisNow e) ?g4 =
             ?g4\<lparr>isDown := (isDown ?g4)(k := False),
               lastKeyText := Some (k, LONG_PRESS_MS \<le> millisNow e - pressStart ?g4 k),
               seqCounter := seqCounter ?g4 + 1, lastSeqSent := seqCounter ?g4 + 1,
               lastAckSeq := ack, lastPostOk := ok,
               transientStatus := (if ok then ''ACK OK'' else ''ACK FAIL''),
               transientUntilMs := millisStatus e + (if ok then 2000 else 3000),
               trace := trace ?g4 @ [Redraw] @ es @ [Blink (if ok then 1 else 2) 30 60, Redraw]\<rparr>"
          and msgs: "\<forall>m \<in> set (posts es). m_seq m = seqCounter ?g4 + 1"
          by auto
        let ?es = "es0 @ [Redraw] @ es @ [Blink (if ok then 1 else 2) 30 60, Redraw, Yield]"
        from True l have "fst (loop e rx g) = emit Yield (release e k (millisNow e) ?g4)"
          by (simp add: Let_def)
        then have "trace (fst (loop e rx g)) = trace g @ ?es"
          unfolding r by (simp add: emit_def)
        with msgs es0 frame show ?thesis
          by (intro exI [of _ ?es]) simp
      qed
    qed
  qed
qed

theorem retry_budget_and_backoff_witness:
  "readPicoPacket (dec key5_down) (sendEvent 0 5) = (Some (0, 5), \<lparr>state = 0, b1 = 0, b2 = 5\<rparr>, []) \<and>
   (5 :: u8) < KEY_COUNT \<and> isDown key5_down 5 \<and> wifiConnected (unreachable_host 1200) \<and>
   \<not> lastPostOk (fst (loop (unreachable_host 1200) (sendEvent 0 5) key5_down)) \<and>
   transientStatus (fst (loop (unreachable_host 1200) (sendEvent 0 5) key5_down)) = ''ACK FAIL'' \<and>
   (\<exists>es. trace (fst (loop (unreachable_host 1200) (sendEvent 0 5) key5_down)) = es \<and>
         length (timeouts es) = 3 \<and> delays es = [200, 400, 800])"
proof -
  let ?e = "unreachable_host 1200"
  let ?g' = "fst (loop ?e (sendEvent 0 5) key5_down)"
  have frame: "readPicoPacket (dec key5_down) (sendEvent 0 5)
                 = (Some (0, 5), \<lparr>state = 0, b1 = 0, b2 = 5\<rparr>, [])"
    by (simp add: key5_down_def gateway_init_def decoder_init_def sendEvent_def)
  have k: "(5 :: u8) < KEY_COUNT" by (simp add: KEY_COUNT_def)
  have down: "isDown key5_down 5" by (simp add: key5_down_def)
  have w: "wifiConnected ?e" by (simp add: unreachable_host_def)
  have f: "failures (outcomes ?e (reliabilityMode key5_down) (seqCounter key5_down + 1) 1) = 3"
    by (simp add: outcomes_def failures_def attempt_succeeds_def unreachable_host_def
          upt_conv_Cons)
  have t: "trace key5_down = []" by (simp add: key5_down_def gateway_init_def)
  from retry_budget_and_backoff [of key5_down "sendEvent 0 5" ?e] frame k down
  obtain es where
    "trace ?g' = trace key5_down @ es"
    "let f = failures (outcomes ?e (reliabilityMode key5_down) (seqCounter key5_down + 1) 1);
         ok = lastPostOk ?g'
     in (wifiConnected ?e \<longrightarrow>
           ok = (f < 3) \<and> length (timeouts es) = (if ok then f + 1 else 3) \<and>
           delays es = take f [200, 400, 800]) \<and>
        (\<not> wifiConnected ?e \<longrightarrow> \<not> ok \<and> timeouts es = [] \<and> delays es = []) \<and>
        (\<not> ok \<longrightarrow> transientStatus ?g' = ''ACK FAIL'')"
    by fastforce
  with frame k down w show ?thesis
    using f by (simp add: t Let_def)
qed

text \<open>
  C5. When \<open>loop\<close> reads the release of a key that is down, with
  \<open>held = now - pressStart[key]\<close> (unsigned 32-bit subtraction), the press is classified
  long exactly when \<open>held \<ge> 600\<close>: the display's last-key text and every message posted
  for it say long if \<open>held \<ge> 600\<close> and short if \<open>held < 600\<close>, and the event number is
  \<open>key + 36\<close> or \<open>key\<close> accordingly.
\<close>

theorem long_press_threshold:
  assumes "readPicoPacket (dec g) rx = (Some (ty, k), d, rx')"
    and "ty \<noteq> 1" and "k < KEY_COUNT" and "isDown g k"
  shows "let held = millisNow e - pressStart g k; g' = fst (loop e rx g)
         in lastKeyText g' = Some (k, 600 \<le> held) \<and>
            (\<exists>es. trace g' = trace g @ es \<and>
                  (\<forall>m \<in> set (posts es).
                      m_heldMs m = held \<and>
                      (m_press m = ''long'' \<longleftrightarrow> 600 \<le> held) \<and>
                      (m_press m = ''short'' \<longleftrightarrow> held < 600) \<and>
                      m_event m = (if 600 \<le> held then k + 36 else k)))"
proof -
  let ?held = "millisNow e - pressStart g k"
  from loop_frame [OF assms(1), of e] assms(2-) obtain ts es0 where
    es0: "posts es0 = []"
    and l: "fst (loop e rx g) = emit Yield (release e k (millisNow e)
              (g\<lparr>dec := d, picoSeen := True, transientStatus := ts, trace := trace g @ es0\<rparr>))"
    by (auto simp: not_le [symmetric])
  let ?g4 = "g\<lparr>dec := d, picoSeen := True, transientStatus := ts, trace := trace g @ es0\<rparr>"
  from release_run [of e k "millisNow e" ?g4] obtain ok ack es where
    r: "release e k (millisNow e) ?g4 =
         ?g4\<lparr>isDown := (isDown ?g4)(k := False),
             lastKeyText := Some (k, LONG_PRESS_MS \<le> millisNow e - pressStart ?g4 k),
             seqCounter := seqCounter ?g4 + 1, lastSeqSent := seqCounter ?g4 + 1,
             lastAckSeq := ack, lastPostOk := ok,
             transientStatus := (if ok then ''ACK OK'' else ''ACK FAIL''),
             transientUntilMs := millisStatus e + (if ok then 2000 else 3000),
             trace := trace ?g4 @ [Redraw] @ es @ [Blink (if ok then 1 else 2) 30 60, Redraw]\<rparr>"
    and msgs: "\<forall>m \<in> set (posts es).
          m_heldMs m = millisNow e - pressStart ?g4 k \<and>
          m_event m = (if LONG_PRESS_MS \<le> millisNow e - pressStart ?g4 k then k + 36 else k) \<and>
          m_press m = (if LONG_PRESS_MS \<le> millisNow e - pressStart ?g4 k then ''long'' else ''short'')"
    by auto
  let ?es = "es0 @ [Redraw] @ es @ [Blink (if ok then 1 else 2) 30 60, Redraw, Yield]"
  have tr: "trace (fst (loop e rx g)) = trace g @ ?es"
    and shown: "lastKeyText (fst (loop e rx g)) = Some (k, 600 \<le> ?held)"
    unfolding l r by (simp_all add: emit_def LONG_PRESS_MS_def)
  from msgs es0 have "\<forall>m \<in> set (posts ?es).
          m_heldMs m = ?held \<and> (m_press m = ''long'' \<longleftrightarrow> 600 \<le> ?held) \<and>
          (m_press m = ''short'' \<longleftrightarrow> ?held < 600) \<and>
          m_event m = (if 600 \<le> ?held then k + 36 else k)"
    by (auto simp: LONG_PRESS_MS_def not_le)
  with tr shown show ?thesis
    unfolding Let_def by blast
qed

theorem long_press_threshold_witness:
  "readPicoPacket (dec key5_down) (sendEvent 0 5) = (Some (0, 5), \<lparr>state = 0, b1 = 0, b2 = 5\<rparr>, []) \<and>
   (5 :: u8) < KEY_COUNT \<and> isDown key5_down 5 \<and> pressStart key5_down 5 = 1000 \<and>
   lastKeyText (fst (loop (unreachable_host 1599) (sendEvent 0 5) key5_down)) = Some (5, False) \<and>
   lastKeyText (fst (loop (unreachable_host 1600) (sendEvent 0 5) key5_down)) = Some (5, True)"
proof -
  have frame: "readPicoPacket (dec key5_down) (sendEvent 0 5)
                 = (Some (0, 5), \<lparr>state = 0, b1 = 0, b2 = 5\<rparr>, [])"
    by (simp add: key5_down_def gateway_init_def decoder_init_def sendEvent_def)
  have ty: "(0 :: u8) \<noteq> 1" by simp
  have k: "(5 :: u8) < KEY_COUNT" by (simp add: KEY_COUNT_def)
  have down: "isDown key5_down 5" and start: "pressStart key5_down 5 = 1000"
    by (simp_all add: key5_down_def)
  have now: "millisNow (unreachable_host t) = t" for t by (simp add: unreachable_host_def)
  from long_press_threshold [OF frame ty k down, of "unreachable_host 1599"]
       long_press_threshold [OF frame ty k down, of "unreachable_host 1600"]
       frame k down start
  show ?thesis
    by (simp add: Let_def now)
qed

text \<open>
  C8. Redundant transitions are ignored. When \<open>loop\<close> reads a press frame for a key that
  is already down, \<open>isDown\<close> and \<open>pressStart\<close> are left as they were. When it reads a
  release frame (any type other than 1) for a key that is not down, no outcome is
  produced: the sequence counter, the last sequence number sent and acknowledged, the
  last verdict, the last-key text and the sessions are unchanged, and the pass makes no
  delivery attempt (no timeout is set, nothing is posted, no backoff delay is waited).
\<close>

theorem redundant_transitions_ignored:
  assumes "readPicoPacket (dec g) rx = (Some (ty, k), d, rx')"
  shows "(ty = 1 \<and> isDown g k \<longrightarrow>
            isDown (fst (loop e rx g)) = isDown g \<and> pressStart (fst (loop e rx g)) = pressStart g) \<and>
         (ty \<noteq> 1 \<and> \<not> isDown g k \<longrightarrow>
            (let g' = fst (loop e rx g)
             in seqCounter g' = seqCounter g \<and> lastSeqSent g' = lastSeqSent g \<and>
                lastAckSeq g' = lastAckSeq g \<and> lastPostOk g' = lastPostOk g \<and>
                lastKeyText g' = lastKeyText g \<and>
                isDown g' = isDown g \<and> pressStart g' = pressStart g \<and>
                (\<exists>es. trace g' = trace g @ es \<and>
                      posts es = [] \<and> timeouts es = [] \<and> delays es = [])))"
proof -
  from loop_frame [OF assms, of e] obtain ts es0 where
    es0: "posts es0 = []" "timeouts es0 = []" "delays es0 = []"
    and l: "fst (loop e rx g) =
       (let g4 = g\<lparr>dec := d, picoSeen := True, transientStatus := ts, trace := trace g @ es0\<rparr>
        in if k \<ge> KEY_COUNT then g4
           else if ty = 1 then
             (if \<not> isDown g k
              then emit Yield (g4\<lparr>isDown := (isDown g)(k := True),
                                   pressStart := (pressStart g)(k := millisNow e)\<rparr>)
              else emit Yield g4)
           else if isDown g k then emit Yield (release e k (millisNow e) g4)
           else emit Yield g4)"
    by (auto simp: Let_def)
  let ?g4 = "g\<lparr>dec := d, picoSeen := True, transientStatus := ts, trace := trace g @ es0\<rparr>"
  have press: "isDown (fst (loop e rx g)) = isDown g \<and> pressStart (fst (loop e rx g)) = pressStart g"
    if "ty = 1" "isDown g k"
    using that l by (simp add: Let_def emit_def)
  have rel: "fst (loop e rx g) = ?g4 \<or> fst (loop e rx g) = ?g4\<lparr>trace := trace g @ (es0 @ [Yield])\<rparr>"
    if "ty \<noteq> 1" "\<not> isDown g k"
    using that l by (simp add: Let_def emit_def)
  have quiet: "seqCounter g' = seqCounter g \<and> lastSeqSent g' = lastSeqSent g \<and>
        lastAckSeq g' = lastAckSeq g \<and> lastPostOk g' = lastPostOk g \<and>
        lastKeyText g' = lastKeyText g \<and> isDown g' = isDown g \<and> pressStart g' = pressStart g \<and>
        (\<exists>es. trace g' = trace g @ es \<and> posts es = [] \<and> timeouts es = [] \<and> delays es = [])"
    if g': "g' = ?g4 \<or> g' = ?g4\<lparr>trace := trace g @ (es0 @ [Yield])\<rparr>" for g'
  proof -
    from g' have "trace g' = trace g @ es0 \<or> trace g' = trace g @ (es0 @ [Yield])"
      by auto
    then have "\<exists>es. trace g' = trace g @ es \<and> posts es = [] \<and> timeouts es = [] \<and> delays es = []"
    proof
      assume "trace g' = trace g @ es0"
      with es0 show ?thesis by blast
    next
      assume "trace g' = trace g @ (es0 @ [Yield])"
      moreover have "posts (es0 @ [Yield]) = []" "timeouts (es0 @ [Yield]) = []"
        "delays (es0 @ [Yield]) = []"
        using es0 by simp_all
      ultimately show ?thesis by blast
    qed
    moreover from g' have "seqCounter g' = seqCounter g" "lastSeqSent g' = lastSeqSent g"
      "lastAckSeq g' = lastAckSeq g" "lastPostOk g' = lastPostOk g"
      "lastKeyText g' = lastKeyText g" "isDown g' = isDown g" "pressStart g' = pressStart g"
      by auto
    ultimately show ?thesis by simp
  qed
  from press rel quiet [of "fst (loop e rx g)"] show ?thesis
    unfolding Let_def by blast
qed

theorem redundant_transitions_ignored_witness:
  "readPicoPacket (dec key5_down) (sendEvent 1 5) = (Some (1, 5), \<lparr>state = 0, b1 = 1, b2 = 5\<rparr>, []) \<and>
   isDown key5_down 5 \<and>
   pressStart (fst (loop (unreachable_host 1700) (sendEvent 1 5) key5_down)) 5 = 1000 \<and>
   isDown (fst (loop (unreachable_host 1700) (sendEvent 1 5) key5_down)) 5 \<and>
   readPicoPacket (dec key5_down) (sendEvent 0 7) = (Some (0, 7), \<lparr>state = 0, b1 = 0, b2 = 7\<rparr>, []) \<and>
   \<not> isDown key5_down 7 \<and>
   seqCounter (fst (loop (unreachable_host 1700) (sendEvent 0 7) key5_down)) = 0 \<and>
   (\<exists>es. trace (fst (loop (unreachable_host 1700) (sendEvent 0 7) key5_down)) = es \<and>
         posts es = [] \<and> timeouts es = [] \<and> delays es = [])"
proof -
  have press: "readPicoPacket (dec key5_down) (sendEvent 1 5)
                 = (Some (1, 5), \<lparr>state = 0, b1 = 1, b2 = 5\<rparr>, [])"
    and rel: "readPicoPacket (dec key5_down) (sendEvent 0 7)
                 = (Some (0, 7), \<lparr>state = 0, b1 = 0, b2 = 7\<rparr>, [])"
    by (simp_all add: key5_down_def gateway_init_def decoder_init_def sendEvent_def)
  have s: "isDown key5_down 5" "\<not> isDown key5_down 7" "pressStart key5_down 5 = 1000"
    "seqCounter key5_down = 0" "trace key5_down = []"
    by (simp_all add: key5_down_def gateway_init_def)
  from redundant_transitions_ignored [OF press, of "unreachable_host 1700"]
       redundant_transitions_ignored [OF rel, of "unreachable_host 1700"]
       press rel s
  show ?thesis
    by (simp add: Let_def)
qed

section \<open>Facts about the host listener\<close>

lemma alerts_append [simp]: "alerts (xs @ ys) = alerts xs @ alerts ys"
  by (induction xs rule: alerts.induct) simp_all

lemma connectivity_notifications_append [simp]:
  "connectivity_notifications v (xs @ ys)
     = connectivity_notifications v xs + connectivity_notifications v ys"
  by (simp add: connectivity_notifications_def)

lemma connectivity_notifications_Nil [simp]: "connectivity_notifications v [] = 0"
  by (simp add: connectivity_notifications_def)

lemma publishes_only_refl: "publishes_only h h"
  by (simp add: publishes_only_def)

lemma publishes_only_trans:
  "publishes_only a b \<Longrightarrow> publishes_only b c \<Longrightarrow> publishes_only a c"
  by (auto simp: publishes_only_def)

lemma display_only_refl: "display_only h h"
  by (simp add: display_only_def)

lemma display_only_trans: "display_only a b \<Longrightarrow> display_only b c \<Longrightarrow> display_only a c"
  by (auto simp: display_only_def)

lemma display_only_publishes: "display_only h h' \<Longrightarrow> publishes_only h h'"
  by (auto simp: display_only_def publishes_only_def)

text \<open>A property that every statement keeps, and that composes, is kept by a sequence.\<close>

lemma run_steps_keeps:
  assumes "\<And>h. R h h" and "\<And>a b c. R a b \<Longrightarrow> R b c \<Longrightarrow> R a c"
    and "\<And>s h. s \<in> set ss \<Longrightarrow> R h (snd (s h))"
  shows "R h (snd (run_steps ss h))"
  using assms(3)
proof (induction ss arbitrary: h)
  case Nil
  show ?case by (simp add: assms(1))
next
  case (Cons s ss)
  obtain ok h1 where s: "s h = (ok, h1)" by (cases "s h")
  have first: "R h h1"
    using Cons.prems [of s h] s by simp
  show ?case
  proof (cases ok)
    case True
    have "R h1 (snd (run_steps ss h1))"
      by (rule Cons.IH) (simp add: Cons.prems)
    with first True s show ?thesis
      by (auto intro: assms(2))
  next
    case False
    with first s show ?thesis by simp
  qed
qed

lemma run_steps_returns:
  assumes "\<And>s h. s \<in> set ss \<Longrightarrow> fst (s h)"
  shows "fst (run_steps ss h)"
  using assms
proof (induction ss arbitrary: h)
  case Nil
  show ?case by simp
next
  case (Cons s ss)
  obtain ok h1 where s: "s h = (ok, h1)" by (cases "s h")
  with Cons.prems [of s h] have ok by simp
  moreover have "fst (run_steps ss h1)"
    by (rule Cons.IH) (simp add: Cons.prems)
  ultimately show ?case
    using s by simp
qed

lemma run_steps_single: "run_steps [s] h = s h"
  by (cases "s h") (auto split: bool.splits)

lemma run_steps_Cons:
  "run_steps (s # ss) h = (if fst (s h) then run_steps ss (snd (s h)) else (False, snd (s h)))"
  by (cases "s h") (auto split: bool.splits)

lemma run_steps_two:
  "run_steps [a, b] h = (if fst (a h) then b (snd (a h)) else (False, snd (a h)))"
  by (simp only: run_steps_Cons [of a] run_steps_single)

lemma lumia_cases:
  "lumia throws c h = (if throws c then (False, h) else (True, h\<lparr>calls := calls h @ [c]\<rparr>))"
  by (simp add: lumia_def)

lemma setVariable_publishes: "publishes_only h (snd (setVariable throws name v h))"
  by (auto simp: setVariable_def lumia_def publishes_only_def)

lemma setVariable_returns: "\<not> throws (SetVariable name v) \<Longrightarrow> fst (setVariable throws name v h)"
  by (simp add: setVariable_def lumia_def)

lemma toast_display: "display_only h (snd (toast throws S now m t isVerbose h))"
  by (simp add: toast_def lumia_def Let_def display_only_def connectivity_notifications_def)

lemma toast_returns: "fst (toast throws S now m t isVerbose h)"
  by (simp add: toast_def Let_def)

lemma updateDeviceStatusText_display:
  "display_only h (snd (updateDeviceStatusText throws now force h))"
  by (auto simp: updateDeviceStatusText_def setVariable_def lumia_def display_only_def Let_def
        connectivity_notifications_def)

lemma updateDeviceStatusText_returns:
  "\<forall>c. \<not> throws c \<Longrightarrow> fst (updateDeviceStatusText throws now force h)"
  by (simp add: updateDeviceStatusText_def setVariable_def lumia_def Let_def)

text \<open>
  \<^verbatim>\<open>_setDeviceConnected\<close>: the flag is set before the variable is published, so it changes
  even when publishing throws; the notification is sent exactly when the flag changes and
  publishing does not throw.
\<close>

lemma setDeviceConnected_run:
  "\<exists>cs.
     calls (snd (setDeviceConnected throws S now v h)) = calls h @ cs \<and>
     alerts cs = [] \<and>
     connectivity_notifications (\<not> v) cs = 0 \<and>
     connectivity_notifications v cs
       = (if deviceConnected h \<noteq> v \<and> \<not> throws (SetVariable ''device_connected'' (VBool v))
          then 1 else 0)"
  "deviceConnected (snd (setDeviceConnected throws S now v h)) = v"
  "lastSeqByDevice (snd (setDeviceConnected throws S now v h)) = lastSeqByDevice h"
  "lastSeenMs (snd (setDeviceConnected throws S now v h)) = lastSeenMs h"
  "fst (setDeviceConnected throws S now v h)
         = (deviceConnected h = v \<or> \<not> throws (SetVariable ''device_connected'' (VBool v)))"
proof -
  let ?c = "SetVariable ''device_connected'' (VBool v)"
  let ?m = "if v then LumiConConnected else LumiConOffline"
  let ?h2 = "h\<lparr>deviceConnected := v, calls := calls h @ [?c]\<rparr>"
  define T where "T = toast throws S now ?m 2500 False ?h2"
  have run: "setDeviceConnected throws S now v h =
          (if deviceConnected h = v then (True, h)
           else if throws ?c then (False, h\<lparr>deviceConnected := v\<rparr>)
           else T)"
    unfolding T_def
    by (simp add: setDeviceConnected_def run_steps_two setVariable_def lumia_def
          del: run_steps.simps)
  from toast_display [of ?h2 throws S now ?m 2500 False] obtain cs where
    t: "calls (snd T) = calls h @ (?c # cs)"
      "alerts cs = []" "\<And>w. connectivity_notifications w cs = 0"
      "deviceConnected (snd T) = v"
      "lastSeqByDevice (snd T) = lastSeqByDevice h"
      "lastSeenMs (snd T) = lastSeenMs h"
    unfolding T_def by (auto simp: display_only_def)
  have T: "fst T"
    unfolding T_def by (rule toast_returns)
  have n: "connectivity_notifications w [?c] = (if w = v then 1 else 0)" for w
    by (auto simp: connectivity_notifications_def)
  have n': "connectivity_notifications w (?c # cs) = (if w = v then 1 else 0)" for w
    using n [of w] t(3) [of w] connectivity_notifications_append [of w "[?c]" cs] by simp
  show "\<exists>cs.
     calls (snd (setDeviceConnected throws S now v h)) = calls h @ cs \<and>
     alerts cs = [] \<and>
     connectivity_notifications (\<not> v) cs = 0 \<and>
     connectivity_notifications v cs
       = (if deviceConnected h \<noteq> v \<and> \<not> throws ?c then 1 else 0)"
  proof (cases "deviceConnected h \<noteq> v \<and> \<not> throws ?c")
    case True
    then have "snd (setDeviceConnected throws S now v h) = snd T"
      by (simp add: run)
    with True t n' show ?thesis
      by (intro exI [of _ "?c # cs"]) simp
  next
    case False
    then have "calls (snd (setDeviceConnected throws S now v h)) = calls h"
      by (auto simp: run)
    with False show ?thesis
      by (intro exI [of _ "[]"]) auto
  qed
  show "deviceConnected (snd (setDeviceConnected throws S now v h)) = v"
    and "lastSeqByDevice (snd (setDeviceConnected throws S now v h)) = lastSeqByDevice h"
    and "lastSeenMs (snd (setDeviceConnected throws S now v h)) = lastSeenMs h"
    using t(4-6) by (auto simp: run)
  show "fst (setDeviceConnected throws S now v h) = (deviceConnected h = v \<or> \<not> throws ?c)"
    using T by (simp add: run)
qed

lemma setDeviceConnected_publishes:
  "publishes_only h (snd (setDeviceConnected throws S now v h))"
  using setDeviceConnected_run(1,3) [of throws S now v h]
  by (auto simp: publishes_only_def)

lemma updateCacheAndVariables_publishes:
  "publishes_only h (snd (updateCacheAndVariables throws S now req n sq d held rssi h))"
  unfolding updateCacheAndVariables_def Let_def
proof (rule run_steps_keeps [where R = publishes_only])
  show "publishes_only h h" for h
    by (rule publishes_only_refl)
  show "publishes_only a b \<Longrightarrow> publishes_only b c \<Longrightarrow> publishes_only a c" for a b c
    by (rule publishes_only_trans)
next
  fix s h
  assume "s \<in> set
     [\<lambda>h. (True, h\<lparr>lastSeenMs := now, lastRssi := rssi, deviceId := d, deviceIp := remoteIpOf req\<rparr>),
      setDeviceConnected throws S now True,
      setVariable throws ''event'' (VNum (keyIndexOf n)),
      setVariable throws ''kind'' (VStr (kindOf n)),
      setVariable throws ''received_at'' (VIso now),
      setVariable throws ''device_id'' (VStr d),
      setVariable throws ''device_ip'' (VStr (remoteIpOf req)),
      setVariable throws ''device_last_seen'' (VIso now),
      setVariable throws ''device_rssi'' (VNum rssi),
      setVariable throws ''seq'' (VNum (case sq of None \<Rightarrow> 0 | Some s \<Rightarrow> s)),
      setVariable throws ''held_ms'' (VNum held),
      \<lambda>h. setVariable throws ''key_label'' (VStr (getKeyLabel h (kindOf n) (keyIndexOf n))) h,
      updateDeviceStatusText throws now True,
      \<lambda>h. if toastVerbosityOf S = ''verbose''
           then toast throws S now (InputToast (getKeyLabel h (kindOf n) (keyIndexOf n))
                  (keyIndexOf n) (kindOf n)) 1200 True h
           else (True, h)]"
  then consider
      "s = (\<lambda>h. (True, h\<lparr>lastSeenMs := now, lastRssi := rssi, deviceId := d,
                            deviceIp := remoteIpOf req\<rparr>))"
    | "s = setDeviceConnected throws S now True"
    | name v where "s = setVariable throws name v"
    | "s = (\<lambda>h. setVariable throws ''key_label''
                  (VStr (getKeyLabel h (kindOf n) (keyIndexOf n))) h)"
    | "s = updateDeviceStatusText throws now True"
    | "s = (\<lambda>h. if toastVerbosityOf S = ''verbose''
                then toast throws S now (InputToast (getKeyLabel h (kindOf n) (keyIndexOf n))
                       (keyIndexOf n) (kindOf n)) 1200 True h
                else (True, h))"
    by (simp only: set_simps insert_iff empty_iff) blast
  then show "publishes_only h (snd (s h))"
  proof cases
    case 1
    then show ?thesis by (simp add: publishes_only_def)
  next
    case 2
    then show ?thesis by (simp add: setDeviceConnected_publishes)
  next
    case 3
    then show ?thesis by (simp add: setVariable_publishes)
  next
    case 4
    then show ?thesis by (simp add: setVariable_publishes)
  next
    case 5
    then show ?thesis
      by (simp add: display_only_publishes updateDeviceStatusText_display)
  next
    case 6
    then show ?thesis
      by (simp add: display_only_publishes toast_display publishes_only_refl)
  qed
qed

lemma updateCacheAndVariables_returns:
  assumes "\<forall>c. \<not> throws c"
  shows "fst (updateCacheAndVariables throws S now req n sq d held rssi h)"
  unfolding updateCacheAndVariables_def Let_def
  by (rule run_steps_returns)
     (auto simp: assms setVariable_returns toast_returns updateDeviceStatusText_returns
        setDeviceConnected_run(5))

text \<open>
  Processing a message: the calls it adds; when it returns, the dedupe map holds the
  sequence number and exactly one alert was triggered; when it throws, the map is as it
  was and no alert was triggered.
\<close>

lemma processEvent_run:
  "\<exists>cs. calls (snd (processEvent throws S now req n sq d held rssi h)) = calls h @ cs \<and>
     (if fst (processEvent throws S now req n sq d held rssi h)
      then lastSeqByDevice (snd (processEvent throws S now req n sq d held rssi h))
             = (if d \<noteq> [] \<and> sq \<noteq> None then (lastSeqByDevice h)(d \<mapsto> the sq)
                else lastSeqByDevice h) \<and>
           (\<exists>a. alerts cs = [a] \<and> x_seq a = (case sq of None \<Rightarrow> 0 | Some s \<Rightarrow> s) \<and>
                x_device_id a = d \<and> x_event a = keyIndexOf n \<and> x_kind a = kindOf n \<and>
                alert a = alertKeyOf n \<and> x_held_ms a = held)
      else lastSeqByDevice (snd (processEvent throws S now req n sq d held rssi h))
             = lastSeqByDevice h \<and> alerts cs = [])"
proof -
  define U where "U = updateCacheAndVariables throws S now req n sq d held rssi h"
  define a where "a =
      \<lparr>alert = alertKeyOf n, dynamic_value = keyIndexOf n,
       x_event = keyIndexOf n, x_kind = kindOf n,
       x_received_at = now, x_device_id = d, x_device_ip = remoteIpOf req,
       x_device_last_seen = now, x_device_rssi = rssi, x_device_connected = True,
       x_seq = (case sq of None \<Rightarrow> 0 | Some s \<Rightarrow> s), x_held_ms = held,
       x_key_label = getKeyLabel (snd U) (kindOf n) (keyIndexOf n)\<rparr>"
  have a: "x_seq a = (case sq of None \<Rightarrow> 0 | Some s \<Rightarrow> s)" "x_device_id a = d"
    "x_event a = keyIndexOf n" "x_kind a = kindOf n" "alert a = alertKeyOf n" "x_held_ms a = held"
    by (simp_all add: a_def)
  from updateCacheAndVariables_publishes [of h throws S now req n sq d held rssi]
  obtain cs where U: "lastSeqByDevice (snd U) = lastSeqByDevice h"
    "calls (snd U) = calls h @ cs" "alerts cs = []"
    unfolding U_def publishes_only_def by blast
  have run: "processEvent throws S now req n sq d held rssi h =
          (if \<not> fst U then (False, snd U)
           else if throws (TriggerAlert a) then (False, snd U)
           else recordSeq d sq ((snd U)\<lparr>calls := calls (snd U) @ [TriggerAlert a]\<rparr>))"
    unfolding processEvent_def U_def a_def
    by (simp add: run_steps_Cons triggerMatrixAlert_def lumia_def recordSeq_def
          del: run_steps.simps(2))
  show ?thesis
  proof (cases "fst U \<and> \<not> throws (TriggerAlert a)")
    case False
    with U show ?thesis
      unfolding run by (intro exI [of _ cs]) auto
  next
    case True
    with U a show ?thesis
      unfolding run by (intro exI [of _ "cs @ [TriggerAlert a]"]) (simp add: recordSeq_def)
  qed
qed

lemma processEvent_returns:
  assumes "\<forall>c. \<not> throws c"
  shows "fst (processEvent throws S now req n sq d held rssi h)"
  unfolding processEvent_def
  by (rule run_steps_returns)
     (auto simp: assms updateCacheAndVariables_returns triggerMatrixAlert_def lumia_def
        recordSeq_def)

text \<open>The handler, branch by branch, for a \<^verbatim>\<open>POST /event\<close> request.\<close>

lemma handleRequest_unauthorized:
  assumes "method req = ''POST''" and "url req = ''/event''"
    and "getSecret S \<noteq> []"
    and "trim (case secretHeader req of None \<Rightarrow> [] | Some v \<Rightarrow> v) \<noteq> getSecret S"
  shows "handleRequest throws S now req h = (Some (401, Unauthorized), h)"
  using assms by (simp add: handleRequest_def Let_def)

lemma handleRequest_authorized:
  assumes "method req = ''POST''" and "url req = ''/event''"
    and "getSecret S = [] \<or> trim (case secretHeader req of None \<Rightarrow> [] | Some v \<Rightarrow> v) = getSecret S"
    and "jsonBody req = Some b" and "b_event b = Whole n" and "EVENT_MIN \<le> n" and "n \<le> EVENT_MAX"
  shows "handleRequest throws S now req h =
          (let sq = (case b_seq b of Whole s \<Rightarrow> Some s | NotWhole \<Rightarrow> None);
               devId = (case b_deviceId b of Some d \<Rightarrow> d | None \<Rightarrow> []);
               held = (case b_heldMs b of Whole m \<Rightarrow> m | NotWhole \<Rightarrow> 0);
               rssi = (case b_rssi b of Some r \<Rightarrow> r | None \<Rightarrow> 0)
           in if devId \<noteq> [] \<and> sq \<noteq> None \<and>
                 the sq \<le> (case lastSeqByDevice h devId of None \<Rightarrow> 0 | Some p \<Rightarrow> p)
              then (Some (200, Ack sq), h)
              else if fst (processEvent throws S now req n sq devId held rssi h)
              then (Some (200, Ack sq), snd (processEvent throws S now req n sq devId held rssi h))
              else catchError throws (snd (processEvent throws S now req n sq devId held rssi h)))"
proof -
  have "(case p of (True, h') \<Rightarrow> f h' | (False, h') \<Rightarrow> g h') = (if fst p then f (snd p) else g (snd p))"
    for p :: "bool \<times> host" and f g :: "host \<Rightarrow> response option \<times> host"
    by (cases p) (auto split: bool.splits)
  with assms show ?thesis
    by (auto simp: handleRequest_def Let_def)
qed

lemma catchError_run:
  "lastSeqByDevice (snd (catchError throws h)) = lastSeqByDevice h"
  "\<exists>cs. calls (snd (catchError throws h)) = calls h @ cs \<and> alerts cs = []"
  "fst (catchError throws h) = (if throws LogError then None else Some (500, ServerError))"
  by (auto simp: catchError_def lumia_def)

text \<open>
  One tick of the liveness timer: the device is demoted exactly when it is connected, was
  seen at a non-zero time and that time is more than the timeout ago; the notification
  goes out when it is demoted and publishing does not throw.
\<close>

lemma tickStatusTimer_run:
  "deviceConnected (tickStatusTimer throws S now h)
     = (deviceConnected h \<and> \<not> (lastSeenMs h \<noteq> 0 \<and> now - lastSeenMs h > getOfflineTimeoutMs S))"
  "lastSeenMs (tickStatusTimer throws S now h) = lastSeenMs h"
  "lastSeqByDevice (tickStatusTimer throws S now h) = lastSeqByDevice h"
  "\<exists>cs. calls (tickStatusTimer throws S now h) = calls h @ cs \<and> alerts cs = [] \<and>
        connectivity_notifications True cs = 0 \<and>
        connectivity_notifications False cs
          = (if deviceConnected h \<and> lastSeenMs h \<noteq> 0 \<and> now - lastSeenMs h > getOfflineTimeoutMs S
                \<and> \<not> throws (SetVariable ''device_connected'' (VBool False))
             then 1 else 0)"
proof -
  let ?c = "SetVariable ''device_connected'' (VBool False)"
  define late where
    "late = (deviceConnected h \<and> lastSeenMs h \<noteq> 0 \<and> now - lastSeenMs h > getOfflineTimeoutMs S)"
  define A where "A = (if late then setDeviceConnected throws S now False h else (True, h))"
  define B where "B = updateDeviceStatusText throws now False (snd A)"
  have run: "tickStatusTimer throws S now h = (if fst A then snd B else snd A)"
    unfolding A_def B_def late_def
    by (simp only: tickStatusTimer_def Let_def run_steps_two if_distrib [of snd] snd_conv)
  from updateDeviceStatusText_display [of "snd A" throws now False] obtain bs where
    B: "lastSeqByDevice (snd B) = lastSeqByDevice (snd A)"
      "deviceConnected (snd B) = deviceConnected (snd A)"
      "lastSeenMs (snd B) = lastSeenMs (snd A)"
      "calls (snd B) = calls (snd A) @ bs" "alerts bs = []"
      "\<And>v. connectivity_notifications v bs = 0"
    unfolding B_def display_only_def by blast
  have "\<exists>as. deviceConnected (snd A) = (deviceConnected h \<and> \<not> late) \<and>
      lastSeenMs (snd A) = lastSeenMs h \<and>
      lastSeqByDevice (snd A) = lastSeqByDevice h \<and>
      calls (snd A) = calls h @ as \<and> alerts as = [] \<and>
      connectivity_notifications True as = 0 \<and>
      connectivity_notifications False as = (if late \<and> \<not> throws ?c then 1 else 0)"
  proof (cases late)
    case True
    then have A: "A = setDeviceConnected throws S now False h" and d: "deviceConnected h"
      by (simp_all add: A_def late_def)
    from setDeviceConnected_run(1) [of throws S now False h] obtain as where
      "calls (snd A) = calls h @ as" "alerts as = []"
      "connectivity_notifications True as = 0"
      "connectivity_notifications False as = (if \<not> throws ?c then 1 else 0)"
      unfolding A using d by auto
    with True show ?thesis
      unfolding A by (intro exI [of _ as]) (simp add: setDeviceConnected_run(2-4))
  next
    case False
    then have "A = (True, h)" by (simp add: A_def)
    with False show ?thesis
      by (intro exI [of _ "[]"]) simp
  qed
  then obtain as where
    A: "deviceConnected (snd A) = (deviceConnected h \<and> \<not> late)"
      "lastSeenMs (snd A) = lastSeenMs h"
      "lastSeqByDevice (snd A) = lastSeqByDevice h"
      "calls (snd A) = calls h @ as" "alerts as = []"
      "connectivity_notifications True as = 0"
      "connectivity_notifications False as = (if late \<and> \<not> throws ?c then 1 else 0)"
    by blast
  have conn: "deviceConnected (tickStatusTimer throws S now h) = (deviceConnected h \<and> \<not> late)"
    using A(1) B(2) by (simp add: run)
  then show "deviceConnected (tickStatusTimer throws S now h)
     = (deviceConnected h \<and> \<not> (lastSeenMs h \<noteq> 0 \<and> now - lastSeenMs h > getOfflineTimeoutMs S))"
    unfolding late_def by blast
  show "lastSeenMs (tickStatusTimer throws S now h) = lastSeenMs h"
    using A(2) B(3) by (simp add: run)
  show "lastSeqByDevice (tickStatusTimer throws S now h) = lastSeqByDevice h"
    using A(3) B(1) by (simp add: run)
  have "\<exists>cs. calls (tickStatusTimer throws S now h) = calls h @ cs \<and> alerts cs = [] \<and>
        connectivity_notifications True cs = 0 \<and>
        connectivity_notifications False cs = (if late \<and> \<not> throws ?c then 1 else 0)"
  proof (cases "fst A")
    case True
    then have "calls (tickStatusTimer throws S now h) = calls h @ (as @ bs)"
      using A(4) B(4) by (simp add: run)
    moreover have "alerts (as @ bs) = []" "connectivity_notifications True (as @ bs) = 0"
      "connectivity_notifications False (as @ bs) = (if late \<and> \<not> throws ?c then 1 else 0)"
      using A(5-7) B(5,6) by simp_all
    ultimately show ?thesis by blast
  next
    case False
    then have "calls (tickStatusTimer throws S now h) = calls h @ as"
      using A(4) by (simp add: run)
    with A(5-7) show ?thesis by blast
  qed
  then show "\<exists>cs. calls (tickStatusTimer throws S now h) = calls h @ cs \<and> alerts cs = [] \<and>
        connectivity_notifications True cs = 0 \<and>
        connectivity_notifications False cs
          = (if deviceConnected h \<and> lastSeenMs h \<noteq> 0 \<and> now - lastSeenMs h > getOfflineTimeoutMs S
                \<and> \<not> throws (SetVariable ''device_connected'' (VBool False))
             then 1 else 0)"
    unfolding late_def by (simp add: conj_assoc)
qed

text \<open>A run of ticks with no request in between.\<close>

lemma run_ticks_Cons:
  "run_ticks throws S (t # ts) h = run_ticks throws S ts (tickStatusTimer throws S t h)"
  by (simp add: run_ticks_def)

lemma run_ticks_run:
  assumes "\<not> throws (SetVariable ''device_connected'' (VBool False))"
  shows "deviceConnected (run_ticks throws S ts h)
           = (deviceConnected h \<and>
              \<not> (lastSeenMs h \<noteq> 0 \<and> (\<exists>t \<in> set ts. t - lastSeenMs h > getOfflineTimeoutMs S))) \<and>
         lastSeenMs (run_ticks throws S ts h) = lastSeenMs h \<and>
         (\<exists>cs. calls (run_ticks throws S ts h) = calls h @ cs \<and>
               connectivity_notifications True cs = 0 \<and>
               connectivity_notifications False cs
                 = (if deviceConnected h \<and> lastSeenMs h \<noteq> 0 \<and>
                       (\<exists>t \<in> set ts. t - lastSeenMs h > getOfflineTimeoutMs S)
                    then 1 else 0))"
proof (induction ts arbitrary: h)
  case Nil
  show ?case
    by (simp add: run_ticks_def)
next
  case (Cons t ts)
  let ?h1 = "tickStatusTimer throws S t h"
  let ?late = "\<lambda>t. t - lastSeenMs h > getOfflineTimeoutMs S"
  from tickStatusTimer_run [of throws S t h] assms obtain cs1 where
    h1: "deviceConnected ?h1 = (deviceConnected h \<and> \<not> (lastSeenMs h \<noteq> 0 \<and> ?late t))"
      "lastSeenMs ?h1 = lastSeenMs h"
      "calls ?h1 = calls h @ cs1" "connectivity_notifications True cs1 = 0"
      "connectivity_notifications False cs1
         = (if deviceConnected h \<and> lastSeenMs h \<noteq> 0 \<and> ?late t then 1 else 0)"
    by auto
  from Cons.IH [of ?h1] h1(1,2) obtain cs2 where
    h2: "deviceConnected (run_ticks throws S ts ?h1)
           = (deviceConnected ?h1 \<and> \<not> (lastSeenMs h \<noteq> 0 \<and> (\<exists>t \<in> set ts. ?late t)))"
      "lastSeenMs (run_ticks throws S ts ?h1) = lastSeenMs h"
      "calls (run_ticks throws S ts ?h1) = calls ?h1 @ cs2"
      "connectivity_notifications True cs2 = 0"
      "connectivity_notifications False cs2
         = (if deviceConnected ?h1 \<and> lastSeenMs h \<noteq> 0 \<and> (\<exists>t \<in> set ts. ?late t) then 1 else 0)"
    by auto
  have "calls (run_ticks throws S (t # ts) h) = calls h @ (cs1 @ cs2)"
    by (simp add: run_ticks_Cons h1(3) h2(3))
  moreover have "connectivity_notifications True (cs1 @ cs2) = 0"
    by (simp add: h1(4) h2(4))
  moreover have "connectivity_notifications False (cs1 @ cs2)
         = (if deviceConnected h \<and> lastSeenMs h \<noteq> 0 \<and> (\<exists>t \<in> set (t # ts). ?late t) then 1 else 0)"
    using h1(1) by (auto simp: h1(5) h2(5))
  moreover have "deviceConnected (run_ticks throws S (t # ts) h)
           = (deviceConnected h \<and> \<not> (lastSeenMs h \<noteq> 0 \<and> (\<exists>t \<in> set (t # ts). ?late t)))"
    using h1(1) h2(1) by (auto simp: run_ticks_Cons)
  moreover have "lastSeenMs (run_ticks throws S (t # ts) h) = lastSeenMs h"
    by (simp add: run_ticks_Cons h2(2))
  ultimately show ?case
    by blast
qed

text \<open>With ticks every 5 s, one of them falls in the 5 s after the timeout has elapsed.\<close>

lemma tick_after_timeout:
  assumes "start \<le> t0 + 30000" and "t0 + 30000 < start + 5000 * int n"
  shows "\<exists>t \<in> set (tick_times start n). t0 + 30000 < t \<and> t \<le> t0 + 35000"
proof -
  define x where "x = t0 + 30000 - start"
  define q where "q = x div 5000"
  define r where "r = x mod 5000"
  define k where "k = nat q"
  have x: "x = t0 + 30000 - start"
    by (simp add: x_def)
  have x0: "0 \<le> x"
    using assms(1) by (simp add: x_def)
  then have "0 \<le> q"
    by (simp add: q_def pos_imp_zdiv_nonneg_iff)
  then have k: "int k = q"
    by (simp add: k_def)
  have split: "x = 5000 * q + r"
    by (simp add: q_def r_def)
  have r: "0 \<le> r" "r < 5000"
    by (simp_all add: r_def)
  have lo: "t0 + 30000 < start + 5000 * (int k + 1)"
    unfolding k using split r(2) x by (simp add: algebra_simps)
  have hi: "start + 5000 * (int k + 1) \<le> t0 + 35000"
    unfolding k using split r(1) x by (simp add: algebra_simps)
  have "x < 5000 * int n"
    using assms(2) x by linarith
  with split r(1) have "5000 * q < 5000 * int n"
    by linarith
  then have "int k < int n"
    unfolding k by simp
  then have "k < n" by simp
  then have "start + 5000 * (int k + 1) \<in> set (tick_times start n)"
    by (auto simp: tick_times_def)
  with lo hi show ?thesis by blast
qed

text \<open>The sequence numbers in the dedupe map are never negative.\<close>

lemma reachable_seq_nonneg:
  assumes "reachable h" and "lastSeqByDevice h d = Some v"
  shows "0 \<le> v"
  using assms
proof (induction arbitrary: d v rule: reachable.induct)
  case init
  then show ?case by (simp add: host_init_def)
next
  case (tick h throws S nowMs)
  then show ?case by (simp add: tickStatusTimer_run(3))
next
  case (labels h a b c)
  then show ?case by simp
next
  case (request h throws S nowMs req)
  let ?h' = "snd (handleRequest throws S nowMs req h)"
  show ?case
  proof (cases "lastSeqByDevice ?h' = lastSeqByDevice h")
    case True
    with request show ?thesis by simp
  next
    case False
    then have post: "method req = ''POST''" "url req = ''/event''"
      and auth: "getSecret S = [] \<or>
        trim (case secretHeader req of None \<Rightarrow> [] | Some v \<Rightarrow> v) = getSecret S"
      by (auto simp: handleRequest_def Let_def split: if_splits)
    from False post auth obtain b where b: "jsonBody req = Some b"
      by (cases "jsonBody req") (auto simp: handleRequest_def Let_def catchError_run(1))
    from False post auth b obtain n where n: "b_event b = Whole n" "EVENT_MIN \<le> n" "n \<le> EVENT_MAX"
      by (cases "b_event b") (auto simp: handleRequest_def Let_def split: if_splits)
    define sq where "sq = (case b_seq b of Whole s \<Rightarrow> Some s | NotWhole \<Rightarrow> None)"
    define devId where "devId = (case b_deviceId b of Some d \<Rightarrow> d | None \<Rightarrow> [])"
    define held where "held = (case b_heldMs b of Whole m \<Rightarrow> m | NotWhole \<Rightarrow> 0)"
    define rssi where "rssi = (case b_rssi b of Some r \<Rightarrow> r | None \<Rightarrow> 0)"
    define P where "P = processEvent throws S nowMs req n sq devId held rssi h"
    have run: "handleRequest throws S nowMs req h =
        (if devId \<noteq> [] \<and> sq \<noteq> None \<and>
            the sq \<le> (case lastSeqByDevice h devId of None \<Rightarrow> 0 | Some p \<Rightarrow> p)
         then (Some (200, Ack sq), h)
         else if fst P then (Some (200, Ack sq), snd P)
         else catchError throws (snd P))"
      unfolding handleRequest_authorized [OF post auth b n] sq_def devId_def held_def rssi_def P_def
      by (simp only: Let_def)
    from processEvent_run [of throws S nowMs req n sq devId held rssi h]
    have P: "lastSeqByDevice (snd P) =
        (if fst P \<and> devId \<noteq> [] \<and> sq \<noteq> None then (lastSeqByDevice h)(devId \<mapsto> the sq)
         else lastSeqByDevice h)"
      unfolding P_def by (auto split: if_splits)
    from False have fresh: "\<not> (devId \<noteq> [] \<and> sq \<noteq> None \<and>
            the sq \<le> (case lastSeqByDevice h devId of None \<Rightarrow> 0 | Some p \<Rightarrow> p))"
      and new: "lastSeqByDevice ?h' = (lastSeqByDevice h)(devId \<mapsto> the sq)"
      and some: "devId \<noteq> []" "sq \<noteq> None"
      unfolding run using P by (auto simp: catchError_run(1) split: if_splits)
    show ?thesis
    proof (cases "d = devId")
      case False
      with new request.prems request.IH [of d v] show ?thesis by simp
    next
      case True
      with new request.prems have v: "v = the sq" by simp
      from fresh some have "(case lastSeqByDevice h devId of None \<Rightarrow> 0 | Some p \<Rightarrow> p) < the sq"
        by simp
      moreover have "0 \<le> (case lastSeqByDevice h devId of None \<Rightarrow> 0 | Some p \<Rightarrow> p)"
        using request.IH [of devId] by (cases "lastSeqByDevice h devId") simp_all
      ultimately show ?thesis
        using v by simp
    qed
  qed
qed

text \<open>
  After a message has been processed without a throw, the device is connected and was last
  seen at the instant of the request.
\<close>

lemma setVariable_display:
  "name \<noteq> ''device_connected'' \<Longrightarrow> display_only h (snd (setVariable throws name v h))"
  by (auto simp: setVariable_def lumia_def display_only_def connectivity_notifications_def)

lemma updateCacheAndVariables_seen:
  assumes "\<forall>c. \<not> throws c"
  shows "deviceConnected (snd (updateCacheAndVariables throws S now req n sq d held rssi h))"
    "lastSeenMs (snd (updateCacheAndVariables throws S now req n sq d held rssi h)) = now"
proof -
  define h0 where "h0 = h\<lparr>lastSeenMs := now, lastRssi := rssi, deviceId := d, deviceIp := remoteIpOf req\<rparr>"
  define h1 where "h1 = snd (setDeviceConnected throws S now True h0)"
  define rest where "rest =
     [setVariable throws ''event'' (VNum (keyIndexOf n)),
      setVariable throws ''kind'' (VStr (kindOf n)),
      setVariable throws ''received_at'' (VIso now),
      setVariable throws ''device_id'' (VStr d),
      setVariable throws ''device_ip'' (VStr (remoteIpOf req)),
      setVariable throws ''device_last_seen'' (VIso now),
      setVariable throws ''device_rssi'' (VNum rssi),
      setVariable throws ''seq'' (VNum (case sq of None \<Rightarrow> 0 | Some s \<Rightarrow> s)),
      setVariable throws ''held_ms'' (VNum held),
      \<lambda>h. setVariable throws ''key_label'' (VStr (getKeyLabel h (kindOf n) (keyIndexOf n))) h,
      updateDeviceStatusText throws now True,
      \<lambda>h. if toastVerbosityOf S = ''verbose''
           then toast throws S now (InputToast (getKeyLabel h (kindOf n) (keyIndexOf n))
                  (keyIndexOf n) (kindOf n)) 1200 True h
           else (True, h)]"
  have ok: "fst (setDeviceConnected throws S now True h0)"
    using assms by (simp add: setDeviceConnected_run(5))
  have run: "updateCacheAndVariables throws S now req n sq d held rssi h = run_steps rest h1"
    unfolding updateCacheAndVariables_def Let_def rest_def [symmetric]
    using ok by (simp add: run_steps_Cons h0_def h1_def del: run_steps.simps(2))
  have each: "\<forall>s \<in> set rest. \<forall>h. display_only h (snd (s h))"
    unfolding rest_def
    by (simp add: setVariable_display updateDeviceStatusText_display toast_display
          display_only_refl)
  have "display_only h1 (snd (run_steps rest h1))"
  proof (rule run_steps_keeps [where R = display_only])
    show "display_only h h" for h
      by (rule display_only_refl)
    show "display_only a b \<Longrightarrow> display_only b c \<Longrightarrow> display_only a c" for a b c
      by (rule display_only_trans)
    show "s \<in> set rest \<Longrightarrow> display_only h (snd (s h))" for s h
      using each by blast
  qed
  then have "deviceConnected (snd (run_steps rest h1)) = deviceConnected h1"
    "lastSeenMs (snd (run_steps rest h1)) = lastSeenMs h1"
    by (simp_all add: display_only_def)
  moreover have "deviceConnected h1" "lastSeenMs h1 = now"
    by (simp_all add: h1_def setDeviceConnected_run(2,4)) (simp add: h0_def)
  ultimately show "deviceConnected (snd (updateCacheAndVariables throws S now req n sq d held rssi h))"
    "lastSeenMs (snd (updateCacheAndVariables throws S now req n sq d held rssi h)) = now"
    by (simp_all add: run)
qed

lemma processEvent_seen:
  assumes "\<forall>c. \<not> throws c"
  shows "deviceConnected (snd (processEvent throws S now req n sq d held rssi h))"
    "lastSeenMs (snd (processEvent throws S now req n sq d held rssi h)) = now"
proof -
  let ?U = "updateCacheAndVariables throws S now req n sq d held rssi h"
  have ok: "fst ?U"
    by (rule updateCacheAndVariables_returns [OF assms])
  have nt: "\<not> throws c" for c
    using assms by simp
  have "deviceConnected (snd (processEvent throws S now req n sq d held rssi h))
           = deviceConnected (snd ?U)"
    "lastSeenMs (snd (processEvent throws S now req n sq d held rssi h)) = lastSeenMs (snd ?U)"
    by (simp_all add: processEvent_def run_steps_Cons ok nt triggerMatrixAlert_def lumia_def
          recordSeq_def del: run_steps.simps(2))
  then show "deviceConnected (snd (processEvent throws S now req n sq d held rssi h))"
    "lastSeenMs (snd (processEvent throws S now req n sq d held rssi h)) = now"
    by (simp_all add: updateCacheAndVariables_seen [OF assms])
qed

text \<open>When \<^verbatim>\<open>triggerAlert\<close> throws, processing throws.\<close>

lemma processEvent_throws:
  assumes "\<And>a. throws (TriggerAlert a)"
  shows "\<not> fst (processEvent throws S now req n sq d held rssi h)"
  by (simp add: processEvent_def run_steps_Cons triggerMatrixAlert_def lumia_def assms
        del: run_steps.simps(2))

text \<open>A fresh message on an API that does not throw is processed and acknowledged.\<close>

lemma handleRequest_fresh:
  assumes "method req = ''POST''" and "url req = ''/event''"
    and "getSecret S = [] \<or> trim (case secretHeader req of None \<Rightarrow> [] | Some v \<Rightarrow> v) = getSecret S"
    and "jsonBody req = Some b" and "b_event b = Whole n" and "EVENT_MIN \<le> n" and "n \<le> EVENT_MAX"
    and "b_deviceId b = Some d" and "b_seq b = Whole s"
    and "(case lastSeqByDevice h d of None \<Rightarrow> 0 | Some p \<Rightarrow> p) < s"
    and "\<forall>c. \<not> throws c"
  shows "handleRequest throws S now req h =
           (Some (200, Ack (Some s)),
            snd (processEvent throws S now req n (Some s) d
                   (case b_heldMs b of Whole m \<Rightarrow> m | NotWhole \<Rightarrow> 0)
                   (case b_rssi b of Some r \<Rightarrow> r | None \<Rightarrow> 0) h))"
  unfolding handleRequest_authorized [OF assms(1-7)]
  using assms(8-10) processEvent_returns [OF assms(11)]
  by (simp add: Let_def)

text \<open>The concrete settings and requests.\<close>

lemma never_throws: "\<forall>c. \<not> never_throws c"
  by (simp add: never_throws_def)

lemma trim_abc: "trim ''abc'' = ''abc''" "trim ''abc '' = ''abc''" "trim ''ABC'' = ''ABC''"
  "trim [] = []"
  by (simp_all add: trim_def isJsSpace_def)

lemma getSecret_concrete:
  "getSecret default_settings = []" "getSecret abc_settings = ''abc''"
  "getSecret padded_settings = ''abc''"
  by (simp_all add: getSecret_def default_settings_def abc_settings_def padded_settings_def trim_abc)

lemma getOfflineTimeoutMs_default: "offlineTimeoutSec S = Unset \<Longrightarrow> getOfflineTimeoutMs S = 30000"
  by (simp add: getOfflineTimeoutMs_def)

lemma event_request_fields:
  "method (event_request hdr s) = ''POST''" "url (event_request hdr s) = ''/event''"
  "secretHeader (event_request hdr s) = hdr"
  "jsonBody (event_request hdr s) = Some (event_body s)"
  "b_event (event_body s) = Whole 5" "b_seq (event_body s) = Whole s"
  "b_deviceId (event_body s) = Some ''esp-1''"
  "EVENT_MIN \<le> 5" "5 \<le> EVENT_MAX"
  by (simp_all add: event_request_def event_body_def EVENT_MIN_def EVENT_MAX_def)

lemma seen_host_run:
  "deviceConnected seen_host" "lastSeenMs seen_host = 1000"
proof -
  have "handleRequest never_throws default_settings 1000 (event_request None 7) host_init =
           (Some (200, Ack (Some 7)),
            snd (processEvent never_throws default_settings 1000 (event_request None 7) 5 (Some 7) ''esp-1''
                   (case b_heldMs (event_body 7) of Whole m \<Rightarrow> m | NotWhole \<Rightarrow> 0)
                   (case b_rssi (event_body 7) of Some r \<Rightarrow> r | None \<Rightarrow> 0) host_init))"
    by (rule handleRequest_fresh)
       (simp_all add: event_request_fields getSecret_concrete never_throws host_init_def)
  then show "deviceConnected seen_host" "lastSeenMs seen_host = 1000"
    by (simp_all add: seen_host_def processEvent_seen never_throws)
qed

lemma seen_host_reachable: "reachable seen_host"
  unfolding seen_host_def by (rule reachable.request) (rule reachable.init)

lemma host_init_fields:
  "lastSeqByDevice host_init = Map.empty" "calls host_init = []"
  "\<not> deviceConnected host_init" "lastSeenMs host_init = 0"
  by (simp_all add: host_init_def)

lemma ticks_until_example:
  "ticks_until 0 32000 = [5000, 10000, 15000, 20000, 25000, 30000]"
  "ticks_until 0 36000 = [5000, 10000, 15000, 20000, 25000, 30000, 35000]"
  by (simp_all add: ticks_until_def tick_times_def upt_rec)

section \<open>The claims about the host listener\<close>

text \<open>
  C1. An authenticated \<^verbatim>\<open>POST /event\<close> with a valid event number, a device id \<open>d\<close> and
  an integer sequence number \<open>s\<close>, where the last sequence number processed for \<open>d\<close>
  counts as 0 when there is none: if \<open>s\<close> is not greater than it, the answer is
  \<^verbatim>\<open>200 {ok: true, seq: s}\<close> and the state, with the calls made on the Lumia API, is what it
  was, so no alert is triggered; otherwise, when no call on the API throws, the message is
  processed: the answer is the same, exactly one alert is triggered, for this key, device
  and sequence number, and the last sequence number processed for \<open>d\<close> becomes \<open>s\<close>.
\<close>

theorem duplicate_seq_not_reprocessed:
  assumes "method req = ''POST''" and "url req = ''/event''"
    and "getSecret S = [] \<or> trim (case secretHeader req of None \<Rightarrow> [] | Some v \<Rightarrow> v) = getSecret S"
    and "jsonBody req = Some b" and "b_event b = Whole n" and "EVENT_MIN \<le> n" and "n \<le> EVENT_MAX"
    and "b_deviceId b = Some d" and "d \<noteq> []" and "b_seq b = Whole s"
  shows "if s \<le> (case lastSeqByDevice h d of None \<Rightarrow> 0 | Some p \<Rightarrow> p)
         then handleRequest throws S now req h = (Some (200, Ack (Some s)), h)
         else (\<forall>c. \<not> throws c) \<longrightarrow>
              fst (handleRequest throws S now req h) = Some (200, Ack (Some s)) \<and>
              lastSeqByDevice (snd (handleRequest throws S now req h)) = (lastSeqByDevice h)(d \<mapsto> s) \<and>
              (\<exists>cs a. calls (snd (handleRequest throws S now req h)) = calls h @ cs \<and>
                      alerts cs = [a] \<and> x_seq a = s \<and> x_device_id a = d \<and>
                      x_event a = keyIndexOf n \<and> x_kind a = kindOf n)"
proof (cases "s \<le> (case lastSeqByDevice h d of None \<Rightarrow> 0 | Some p \<Rightarrow> p)")
  case True
  then show ?thesis
    unfolding handleRequest_authorized [OF assms(1-7)] using assms(8-10)
    by (simp add: Let_def)
next
  case False
  define held where "held = (case b_heldMs b of Whole m \<Rightarrow> m | NotWhole \<Rightarrow> 0)"
  define rssi where "rssi = (case b_rssi b of Some r \<Rightarrow> r | None \<Rightarrow> 0)"
  define P where "P = processEvent throws S now req n (Some s) d held rssi h"
  have "fst (handleRequest throws S now req h) = Some (200, Ack (Some s)) \<and>
        lastSeqByDevice (snd (handleRequest throws S now req h)) = (lastSeqByDevice h)(d \<mapsto> s) \<and>
        (\<exists>cs a. calls (snd (handleRequest throws S now req h)) = calls h @ cs \<and>
                alerts cs = [a] \<and> x_seq a = s \<and> x_device_id a = d \<and>
                x_event a = keyIndexOf n \<and> x_kind a = kindOf n)"
    if quiet: "\<forall>c. \<not> throws c"
  proof -
    from False have fresh: "(case lastSeqByDevice h d of None \<Rightarrow> 0 | Some p \<Rightarrow> p) < s"
      by simp
    have run: "handleRequest throws S now req h = (Some (200, Ack (Some s)), snd P)"
      unfolding P_def held_def rssi_def
      by (rule handleRequest_fresh [OF assms(1-8) assms(10) fresh quiet])
    have ok: "fst P"
      unfolding P_def by (rule processEvent_returns [OF quiet])
    from processEvent_run [of throws S now req n "Some s" d held rssi h] ok assms(9)
    obtain cs a where "calls (snd P) = calls h @ cs"
      "lastSeqByDevice (snd P) = (lastSeqByDevice h)(d \<mapsto> s)"
      "alerts cs = [a]" "x_seq a = s" "x_device_id a = d"
      "x_event a = keyIndexOf n" "x_kind a = kindOf n"
      unfolding P_def [symmetric] by auto
    then show ?thesis
      unfolding run by auto
  qed
  with False show ?thesis
    by simp
qed

theorem duplicate_seq_not_reprocessed_witness:
  "fst (handleRequest never_throws default_settings 1000 (event_request None 7) host_init)
     = Some (200, Ack (Some 7)) \<and>
   lastSeqByDevice seen_host ''esp-1'' = Some 7 \<and>
   handleRequest never_throws default_settings 2000 (event_request None 6) seen_host
     = (Some (200, Ack (Some 6)), seen_host)"
proof -
  have first: "fst (handleRequest never_throws default_settings 1000 (event_request None 7) host_init)
       = Some (200, Ack (Some 7)) \<and>
     lastSeqByDevice seen_host ''esp-1'' = Some 7"
    using duplicate_seq_not_reprocessed [where req = "event_request None 7"
        and S = default_settings and b = "event_body 7" and n = 5 and d = "''esp-1''" and s = 7
        and h = host_init and throws = never_throws and now = 1000]
    by (simp add: event_request_fields getSecret_concrete never_throws host_init_fields seen_host_def)
  then have "lastSeqByDevice seen_host ''esp-1'' = Some 7"
    by simp
  then have "handleRequest never_throws default_settings 2000 (event_request None 6) seen_host
     = (Some (200, Ack (Some 6)), seen_host)"
    using duplicate_seq_not_reprocessed [where req = "event_request None 6"
        and S = default_settings and b = "event_body 6" and n = 5 and d = "''esp-1''" and s = 6
        and h = seen_host and throws = never_throws and now = 2000]
    by (simp add: event_request_fields getSecret_concrete)
  with first show ?thesis
    by simp
qed

text \<open>
  C6, as the code has it. Both the configured secret and the header value are trimmed
  before they are compared. With \<open>expected\<close> the trimmed secret and \<open>given\<close> the trimmed
  header value (empty when the header is missing): a \<^verbatim>\<open>POST /event\<close> is answered 401 exactly
  when \<open>expected\<close> is not empty and \<open>given\<close> differs from it, character by character; the
  answer is then sent before the body is read and the state is what it was.
\<close>

theorem secret_compared_after_trimming:
  assumes "method req = ''POST''" and "url req = ''/event''"
    and "expected = trim (case secret S of None \<Rightarrow> [] | Some v \<Rightarrow> v)"
    and "given = trim (case secretHeader req of None \<Rightarrow> [] | Some v \<Rightarrow> v)"
  shows "((fst (handleRequest throws S now req h) = Some (401, Unauthorized))
            = (expected \<noteq> [] \<and> given \<noteq> expected)) \<and>
         (expected \<noteq> [] \<and> given \<noteq> expected
            \<longrightarrow> handleRequest throws S now req h = (Some (401, Unauthorized), h))"
proof (cases "expected \<noteq> [] \<and> given \<noteq> expected")
  case True
  then have "handleRequest throws S now req h = (Some (401, Unauthorized), h)"
    using assms by (intro handleRequest_unauthorized) (simp_all add: getSecret_def)
  with True show ?thesis
    by simp
next
  case False
  then have auth: "getSecret S = [] \<or>
      trim (case secretHeader req of None \<Rightarrow> [] | Some v \<Rightarrow> v) = getSecret S"
    using assms(3,4) by (auto simp: getSecret_def)
  have "fst (handleRequest throws S now req h) \<noteq> Some (401, Unauthorized)"
  proof (cases "jsonBody req")
    case None
    with assms(1,2) auth show ?thesis
      by (auto simp: handleRequest_def Let_def catchError_run(3))
  next
    case (Some b)
    show ?thesis
    proof (cases "\<exists>n. b_event b = Whole n \<and> EVENT_MIN \<le> n \<and> n \<le> EVENT_MAX")
      case True
      then obtain n where n: "b_event b = Whole n" "EVENT_MIN \<le> n" "n \<le> EVENT_MAX"
        by blast
      show ?thesis
        unfolding handleRequest_authorized [OF assms(1,2) auth Some n]
        by (simp add: Let_def catchError_run(3))
    next
      case False
      with assms(1,2) auth Some show ?thesis
        by (cases "b_event b") (auto simp: handleRequest_def Let_def)
    qed
  qed
  with False show ?thesis
    by auto
qed

theorem secret_compared_after_trimming_witness:
  "handleRequest never_throws abc_settings 1000 (event_request (Some ''ABC'') 7) host_init
     = (Some (401, Unauthorized), host_init) \<and>
   fst (handleRequest never_throws abc_settings 1000 (event_request (Some ''abc'') 7) host_init)
     \<noteq> Some (401, Unauthorized)"
proof -
  have expected: "''abc'' = trim (case secret abc_settings of None \<Rightarrow> [] | Some v \<Rightarrow> v)"
    by (simp add: abc_settings_def default_settings_def trim_abc)
  have upper: "''ABC''
      = trim (case secretHeader (event_request (Some ''ABC'') 7) of None \<Rightarrow> [] | Some v \<Rightarrow> v)"
    and lower: "''abc''
      = trim (case secretHeader (event_request (Some ''abc'') 7) of None \<Rightarrow> [] | Some v \<Rightarrow> v)"
    by (simp_all add: event_request_fields trim_abc)
  from secret_compared_after_trimming [where throws = never_throws and now = 1000
      and h = host_init, OF event_request_fields(1,2) expected upper]
  have "handleRequest never_throws abc_settings 1000 (event_request (Some ''ABC'') 7) host_init
     = (Some (401, Unauthorized), host_init)"
    by simp
  moreover
  from secret_compared_after_trimming [where throws = never_throws and now = 1000
      and h = host_init, OF event_request_fields(1,2) expected lower]
  have "fst (handleRequest never_throws abc_settings 1000 (event_request (Some ''abc'') 7) host_init)
     \<noteq> Some (401, Unauthorized)"
    by simp
  ultimately show ?thesis
    by (rule conjI)
qed

text \<open>
  C6 as the specification words it fails: the configured secret \<^verbatim>\<open>abc\<close> followed by a
  space and the header value \<^verbatim>\<open>abc\<close> are different strings, and the request is processed
  and acknowledged.
\<close>

theorem padded_secret_accepts_plain_header:
  "secret padded_settings = Some ''abc '' \<and>
   secretHeader (event_request (Some ''abc'') 7) = Some ''abc'' \<and>
   fst (handleRequest never_throws padded_settings 1000 (event_request (Some ''abc'') 7) host_init)
     = Some (200, Ack (Some 7))"
proof -
  have "handleRequest never_throws padded_settings 1000 (event_request (Some ''abc'') 7) host_init =
           (Some (200, Ack (Some 7)),
            snd (processEvent never_throws padded_settings 1000 (event_request (Some ''abc'') 7) 5
                   (Some 7) ''esp-1''
                   (case b_heldMs (event_body 7) of Whole m \<Rightarrow> m | NotWhole \<Rightarrow> 0)
                   (case b_rssi (event_body 7) of Some r \<Rightarrow> r | None \<Rightarrow> 0) host_init))"
    by (rule handleRequest_fresh)
       (simp_all add: event_request_fields getSecret_concrete never_throws host_init_fields trim_abc)
  then show ?thesis
    by (simp add: padded_settings_def default_settings_def event_request_fields)
qed

text \<open>
  C7, as the code has it. A device that is connected and was last seen at \<open>t0\<close> (not the
  instant 0, which the plugin reads as never seen), the default timeout of 30 s, a timer
  started at or before \<open>t0\<close> that ticks every 5 s, no further message, and a Lumia API on
  which publishing \<^verbatim>\<open>device_connected = false\<close> does not throw. After the ticks that have
  fired by the instant \<open>T\<close>: the device is connected exactly when none of them was later
  than \<open>t0\<close> + 30 s; it is not connected when \<open>T\<close> is \<open>t0\<close> + 35 s or later; and the calls
  made hold one notification of \<^verbatim>\<open>device_connected = false\<close> when it is not connected,
  none when it is, and none of \<^verbatim>\<open>device_connected = true\<close>, however many ticks there were.
\<close>

theorem offline_at_first_check_after_timeout:
  assumes "deviceConnected h" and "lastSeenMs h = t0" and "t0 \<noteq> 0"
    and "offlineTimeoutSec S = Unset"
    and "\<not> throws (SetVariable ''device_connected'' (VBool False))"
    and "start \<le> t0"
  shows "deviceConnected (run_ticks throws S (ticks_until start T) h)
           = (\<not> (\<exists>t \<in> set (ticks_until start T). t0 + 30000 < t)) \<and>
         (t0 + 35000 \<le> T \<longrightarrow> \<not> deviceConnected (run_ticks throws S (ticks_until start T) h)) \<and>
         (\<exists>cs. calls (run_ticks throws S (ticks_until start T) h) = calls h @ cs \<and>
               connectivity_notifications True cs = 0 \<and>
               connectivity_notifications False cs
                 = (if deviceConnected (run_ticks throws S (ticks_until start T) h) then 0 else 1))"
proof -
  let ?ts = "ticks_until start T"
  let ?h' = "run_ticks throws S ?ts h"
  have ms: "getOfflineTimeoutMs S = 30000"
    by (rule getOfflineTimeoutMs_default [OF assms(4)])
  have late: "(getOfflineTimeoutMs S < t - t0) = (t0 + 30000 < t)" for t
    unfolding ms by linarith
  note run = run_ticks_run [where throws = throws and S = S and ts = ?ts and h = h, OF assms(5)]
  from run have "deviceConnected ?h'
      = (deviceConnected h \<and>
         \<not> (lastSeenMs h \<noteq> 0 \<and> (\<exists>t \<in> set ?ts. getOfflineTimeoutMs S < t - lastSeenMs h)))"
    by (rule conjunct1)
  then have conn: "deviceConnected ?h' = (\<not> (\<exists>t \<in> set ?ts. t0 + 30000 < t))"
    using assms(1,3) by (simp add: assms(2) late)
  from run obtain cs where
    cs: "calls ?h' = calls h @ cs" "connectivity_notifications True cs = 0"
    and "connectivity_notifications False cs
           = (if deviceConnected h \<and> lastSeenMs h \<noteq> 0 \<and>
                 (\<exists>t \<in> set ?ts. getOfflineTimeoutMs S < t - lastSeenMs h)
              then 1 else 0)"
    by blast
  then have count: "connectivity_notifications False cs = (if deviceConnected ?h' then 0 else 1)"
    using assms(1,3) unfolding conn by (simp add: assms(2) late)
  have by35: "\<exists>t \<in> set ?ts. t0 + 30000 < t" if T: "t0 + 35000 \<le> T"
  proof -
    define x where "x = T - start"
    define q where "q = x div 5000"
    define r where "r = x mod 5000"
    have split: "x = 5000 * q + r"
      by (simp add: q_def r_def)
    have r: "r < 5000"
      by (simp add: r_def)
    have x: "35000 \<le> x"
      using T assms(6) by (simp add: x_def)
    with split r have "0 \<le> q"
      by linarith
    then have n: "int (nat q) = q"
      by simp
    have "t0 + 30000 < start + 5000 * q"
      using split r T by (simp add: x_def)
    then have "t0 + 30000 < start + 5000 * int (nat ((T - start) div 5000))"
      using n by (simp add: q_def x_def)
    moreover have "start \<le> t0 + 30000"
      using assms(6) by simp
    ultimately have "\<exists>t \<in> set (tick_times start (nat ((T - start) div 5000))).
        t0 + 30000 < t \<and> t \<le> t0 + 35000"
      by (rule tick_after_timeout [rotated])
    then show ?thesis
      unfolding ticks_until_def by blast
  qed
  have demoted: "t0 + 35000 \<le> T \<longrightarrow> \<not> deviceConnected ?h'"
    using by35 conn by blast
  have "\<exists>cs. calls ?h' = calls h @ cs \<and> connectivity_notifications True cs = 0 \<and>
      connectivity_notifications False cs = (if deviceConnected ?h' then 0 else 1)"
    using cs count by blast
  with conn demoted show ?thesis
    by blast
qed

theorem offline_at_first_check_after_timeout_witness:
  "deviceConnected seen_host \<and> lastSeenMs seen_host = 1000 \<and>
   \<not> deviceConnected (run_ticks never_throws default_settings (ticks_until 0 36000) seen_host)"
  using offline_at_first_check_after_timeout [where h = seen_host and ?t0.0 = 1000
      and S = default_settings and throws = never_throws and start = 0 and T = 36000]
  by (simp add: seen_host_run default_settings_def never_throws_def ticks_until_example)

text \<open>
  C7 as the specification words it fails: the device was last seen at the instant 1000, the
  timer started at the instant 0, and at the instant 32000, which is 31 s later, after the
  six ticks that have fired, the device is still connected.
\<close>

theorem still_connected_after_31_seconds:
  "deviceConnected seen_host \<and> lastSeenMs seen_host = 1000 \<and>
   getOfflineTimeoutMs default_settings = 30000 \<and>
   ticks_until 0 32000 = [5000, 10000, 15000, 20000, 25000, 30000] \<and>
   deviceConnected (run_ticks never_throws default_settings (ticks_until 0 32000) seen_host)"
proof -
  have "\<not> never_throws (SetVariable ''device_connected'' (VBool False))"
    by (simp add: never_throws_def)
  with run_ticks_run [where throws = never_throws and S = default_settings
      and ts = "ticks_until 0 32000" and h = seen_host]
  have "deviceConnected (run_ticks never_throws default_settings (ticks_until 0 32000) seen_host)"
    by (simp add: seen_host_run ticks_until_example getOfflineTimeoutMs_default default_settings_def)
  then show ?thesis
    by (simp add: seen_host_run ticks_until_example getOfflineTimeoutMs_default default_settings_def)
qed

text \<open>
  C9. An authenticated \<^verbatim>\<open>POST /event\<close> with a valid event number, a device id \<open>d\<close> and a
  sequence number \<open>s\<close> greater than the last one processed for \<open>d\<close>. If a call on the Lumia
  API throws while the message is processed, the last sequence number processed is what it
  was and no alert was triggered; the answer is 500 when the \<^verbatim>\<open>lumia.log\<close> call of the
  \<^verbatim>\<open>catch\<close> block returns, and no answer is sent when that call throws too. In every case,
  the last sequence number processed changes only when the alert has been triggered and
  the answer is \<^verbatim>\<open>200 {ok: true, seq: s}\<close>.
\<close>

theorem failed_processing_keeps_last_seq:
  assumes "method req = ''POST''" and "url req = ''/event''"
    and "getSecret S = [] \<or> trim (case secretHeader req of None \<Rightarrow> [] | Some v \<Rightarrow> v) = getSecret S"
    and "jsonBody req = Some b" and "b_event b = Whole n" and "EVENT_MIN \<le> n" and "n \<le> EVENT_MAX"
    and "b_deviceId b = Some d" and "d \<noteq> []" and "b_seq b = Whole s"
    and "(case lastSeqByDevice h d of None \<Rightarrow> 0 | Some p \<Rightarrow> p) < s"
    and "held = (case b_heldMs b of Whole m \<Rightarrow> m | NotWhole \<Rightarrow> 0)"
    and "rssi = (case b_rssi b of Some r \<Rightarrow> r | None \<Rightarrow> 0)"
  shows "(\<not> fst (processEvent throws S now req n (Some s) d held rssi h) \<longrightarrow>
            fst (handleRequest throws S now req h)
              = (if throws LogError then None else Some (500, ServerError)) \<and>
            lastSeqByDevice (snd (handleRequest throws S now req h)) = lastSeqByDevice h \<and>
            (\<exists>cs. calls (snd (handleRequest throws S now req h)) = calls h @ cs \<and> alerts cs = [])) \<and>
         (lastSeqByDevice (snd (handleRequest throws S now req h)) \<noteq> lastSeqByDevice h \<longrightarrow>
            fst (handleRequest throws S now req h) = Some (200, Ack (Some s)) \<and>
            (\<exists>cs a. calls (snd (handleRequest throws S now req h)) = calls h @ cs \<and>
                    alerts cs = [a] \<and> x_seq a = s \<and> x_device_id a = d))"
proof -
  let ?P = "processEvent throws S now req n (Some s) d held rssi h"
  have run: "handleRequest throws S now req h =
      (if fst ?P then (Some (200, Ack (Some s)), snd ?P) else catchError throws (snd ?P))"
    unfolding handleRequest_authorized [OF assms(1-7)] assms(12,13)
    using assms(8-11) by (simp add: Let_def)
  from processEvent_run [of throws S now req n "Some s" d held rssi h] obtain cs where
    cs: "calls (snd ?P) = calls h @ cs"
    and P: "fst ?P \<Longrightarrow> lastSeqByDevice (snd ?P) = (lastSeqByDevice h)(d \<mapsto> s)"
      "fst ?P \<Longrightarrow> \<exists>a. alerts cs = [a] \<and> x_seq a = s \<and> x_device_id a = d"
      "\<not> fst ?P \<Longrightarrow> lastSeqByDevice (snd ?P) = lastSeqByDevice h"
      "\<not> fst ?P \<Longrightarrow> alerts cs = []"
    using assms(9) by (auto split: if_splits)
  from catchError_run(2) [of throws "snd ?P"] obtain es where
    es: "calls (snd (catchError throws (snd ?P))) = calls (snd ?P) @ es" "alerts es = []"
    by blast
  have failed: "fst (handleRequest throws S now req h)
        = (if throws LogError then None else Some (500, ServerError)) \<and>
      lastSeqByDevice (snd (handleRequest throws S now req h)) = lastSeqByDevice h \<and>
      (\<exists>cs. calls (snd (handleRequest throws S now req h)) = calls h @ cs \<and> alerts cs = [])"
    if thrown: "\<not> fst ?P"
  proof -
    have "calls (snd (catchError throws (snd ?P))) = calls h @ (cs @ es)"
      by (simp add: es(1) cs)
    moreover have "alerts (cs @ es) = []"
      by (simp add: P(4) [OF thrown] es(2))
    ultimately have "\<exists>cs. calls (snd (catchError throws (snd ?P))) = calls h @ cs \<and> alerts cs = []"
      by blast
    moreover have "handleRequest throws S now req h = catchError throws (snd ?P)"
      using thrown by (simp add: run)
    ultimately show ?thesis
      by (simp add: catchError_run(1,3) P(3) [OF thrown])
  qed
  have acked: "fst (handleRequest throws S now req h) = Some (200, Ack (Some s)) \<and>
      (\<exists>cs a. calls (snd (handleRequest throws S now req h)) = calls h @ cs \<and>
              alerts cs = [a] \<and> x_seq a = s \<and> x_device_id a = d)"
    if returned: "fst ?P"
  proof -
    from P(2) [OF returned] obtain a where "alerts cs = [a]" "x_seq a = s" "x_device_id a = d"
      by blast
    moreover have "handleRequest throws S now req h = (Some (200, Ack (Some s)), snd ?P)"
      using returned by (simp add: run)
    ultimately show ?thesis
      using cs by simp
  qed
  have first: "\<not> fst ?P \<longrightarrow>
      fst (handleRequest throws S now req h)
        = (if throws LogError then None else Some (500, ServerError)) \<and>
      lastSeqByDevice (snd (handleRequest throws S now req h)) = lastSeqByDevice h \<and>
      (\<exists>cs. calls (snd (handleRequest throws S now req h)) = calls h @ cs \<and> alerts cs = [])"
    by (rule impI) (rule failed)
  have second: "lastSeqByDevice (snd (handleRequest throws S now req h)) \<noteq> lastSeqByDevice h \<longrightarrow>
      fst (handleRequest throws S now req h) = Some (200, Ack (Some s)) \<and>
      (\<exists>cs a. calls (snd (handleRequest throws S now req h)) = calls h @ cs \<and>
              alerts cs = [a] \<and> x_seq a = s \<and> x_device_id a = d)"
  proof (rule impI)
    assume changed: "lastSeqByDevice (snd (handleRequest throws S now req h)) \<noteq> lastSeqByDevice h"
    have "fst ?P"
    proof (rule ccontr)
      assume "\<not> fst ?P"
      from failed [OF this] changed show False
        by simp
    qed
    then show "fst (handleRequest throws S now req h) = Some (200, Ack (Some s)) \<and>
      (\<exists>cs a. calls (snd (handleRequest throws S now req h)) = calls h @ cs \<and>
              alerts cs = [a] \<and> x_seq a = s \<and> x_device_id a = d)"
      by (rule acked)
  qed
  from first second show ?thesis
    by (rule conjI)
qed

text \<open>
  The first message of a device, with no secret configured. When only \<^verbatim>\<open>triggerAlert\<close>
  throws, the answer is 500. When every call on the Lumia API throws, \<^verbatim>\<open>lumia.log\<close>
  included, no answer is sent. Both times no sequence number is recorded.
\<close>

theorem failed_processing_keeps_last_seq_witness:
  "fst (handleRequest alert_throws default_settings 1000 (event_request None 7) host_init)
     = Some (500, ServerError) \<and>
   lastSeqByDevice (snd (handleRequest alert_throws default_settings 1000 (event_request None 7)
                           host_init)) = lastSeqByDevice host_init \<and>
   fst (handleRequest always_throws default_settings 1000 (event_request None 7) host_init)
     = None \<and>
   lastSeqByDevice (snd (handleRequest always_throws default_settings 1000 (event_request None 7)
                           host_init)) = lastSeqByDevice host_init"
proof -
  have thrown: "\<not> fst (processEvent alert_throws default_settings 1000 (event_request None 7) 5
                 (Some 7) ''esp-1'' 120 (- 60) host_init)"
    "\<not> fst (processEvent always_throws default_settings 1000 (event_request None 7) 5
                 (Some 7) ''esp-1'' 120 (- 60) host_init)"
    by (rule processEvent_throws, simp add: alert_throws_def always_throws_def)+
  have auth: "getSecret default_settings = [] \<or>
      trim (case secretHeader (event_request None 7) of None \<Rightarrow> [] | Some v \<Rightarrow> v)
        = getSecret default_settings"
    by (simp add: getSecret_concrete)
  have named: "''esp-1'' \<noteq> []"
    by simp
  have fresh: "(case lastSeqByDevice host_init ''esp-1'' of None \<Rightarrow> 0 | Some p \<Rightarrow> p) < 7"
    by (simp add: host_init_fields)
  have held: "120 = (case b_heldMs (event_body 7) of Whole m \<Rightarrow> m | NotWhole \<Rightarrow> 0)"
    and rssi: "- 60 = (case b_rssi (event_body 7) of Some r \<Rightarrow> r | None \<Rightarrow> 0)"
    by (simp_all add: event_body_def)
  have logged: "\<not> alert_throws LogError" "always_throws LogError"
    by (simp_all add: alert_throws_def always_throws_def)
  note run = failed_processing_keeps_last_seq [where now = 1000,
      OF event_request_fields(1,2) auth event_request_fields(4,5,8,9,7) named
        event_request_fields(6) fresh held rssi, THEN conjunct1, THEN mp]
  from run [of alert_throws, OF thrown(1)] run [of always_throws, OF thrown(2)] logged
  show ?thesis
    by simp
qed

text \<open>
  C10. In every state the plugin can reach, an authenticated \<^verbatim>\<open>POST /event\<close> with a valid
  event number, a device id and the sequence number 0 is answered \<^verbatim>\<open>200 {ok: true, seq: 0}\<close>
  and leaves the state, with the calls made on the Lumia API, what it was: no alert is
  triggered and nothing is recorded, also when the device has never been heard of.
\<close>

theorem seq_zero_taken_as_duplicate:
  assumes "reachable h"
    and "method req = ''POST''" and "url req = ''/event''"
    and "getSecret S = [] \<or> trim (case secretHeader req of None \<Rightarrow> [] | Some v \<Rightarrow> v) = getSecret S"
    and "jsonBody req = Some b" and "b_event b = Whole n" and "EVENT_MIN \<le> n" and "n \<le> EVENT_MAX"
    and "b_deviceId b = Some d" and "d \<noteq> []" and "b_seq b = Whole 0"
  shows "handleRequest throws S now req h = (Some (200, Ack (Some 0)), h)"
proof -
  have "0 \<le> (case lastSeqByDevice h d of None \<Rightarrow> 0 | Some p \<Rightarrow> p)"
    using reachable_seq_nonneg [OF assms(1), of d]
    by (cases "lastSeqByDevice h d") simp_all
  then show ?thesis
    unfolding handleRequest_authorized [OF assms(2-8)] using assms(9-11)
    by (simp add: Let_def)
qed

theorem seq_zero_taken_as_duplicate_witness:
  "handleRequest never_throws default_settings 1000 (event_request None 0) host_init
     = (Some (200, Ack (Some 0)), host_init) \<and>
   handleRequest never_throws default_settings 2000 (event_request None 0) seen_host
     = (Some (200, Ack (Some 0)), seen_host)"
  using seq_zero_taken_as_duplicate [OF reachable.init, where req = "event_request None 0"
      and S = default_settings and b = "event_body 0" and n = 5 and d = "''esp-1''"
      and throws = never_throws and now = 1000]
    seq_zero_taken_as_duplicate [OF seen_host_reachable, where req = "event_request None 0"
      and S = default_settings and b = "event_body 0" and n = 5 and d = "''esp-1''"
      and throws = never_throws and now = 2000]
  by (simp add: event_request_fields getSecret_concrete)

end
